theory Spec2Isabelle
  imports Main
begin

text \<open>
  A shallow embedding of the fluent-iter library: the classifier of \<^verbatim>\<open>util.ts\<close>
  (\<open>isIterable\<close>, \<open>isAsyncIterable\<close>) and the classes \<open>FluentIterable\<close> and
  \<open>FluentAsyncIterable\<close> with their constructors, the transformation methods \<open>map\<close>,
  \<open>filter\<close>, \<open>concat\<close>, \<open>flat\<close>, \<open>enumerate\<close>, \<open>zip\<close> and the terminal
  methods \<open>toArray\<close>, \<open>all\<close>, \<open>every\<close>, \<open>any\<close>, \<open>some\<close>. Generator objects and
  cursors are objects of a store that every operation takes and returns; an exception is
  a result \<open>Inl\<close>; a request that may not return takes a bound on its depth and returns
  \<open>None\<close> when the bound is used up. Callbacks are pure total functions.
\<close>

section \<open>JavaScript values\<close>

text \<open>
  The values the library can meet. Numbers are integers here (\<open>NaN\<close> and fractions play
  no role in the library). Arrays are immutable values: the library never writes to an
  array it is given. \<open>JIter xs\<close> is a restartable collection other than an array (a
  \<open>Set\<close>, say) whose \<open>[Symbol.iterator]()\<close> gives a fresh cursor over \<open>xs\<close>;
  \<open>JAsyncIter xs\<close> is the same for \<open>[Symbol.asyncIterator]()\<close>. \<open>JPlain\<close> is an object
  with neither member, \<open>JOdd\<close> an object on which both members exist but hold a number.
  Functions and generator objects live in the store and are values by reference.
\<close>

datatype jsval =
    Undefined
  | Null
  | JBool bool
  | JNum int
  | JStr string
  | JArr "jsval list"
  | JPlain
  | JOdd
  | JIter "jsval list"
  | JAsyncIter "jsval list"
  | JFun nat
  | JGen nat
  | JAsyncGen nat

text \<open>What can be thrown: a TypeError the library raises itself, with its message; a
  TypeError raised by the runtime (a member read on \<open>null\<close> or \<open>undefined\<close>, a call of
  what is not a function, a loop over what is not iterable), whose message is the
  runtime's own and is not modelled; an exception thrown by a function the caller
  supplied.\<close>

datatype error = TypeError string | RuntimeTypeError | UserError string

text \<open>\<open>Boolean(x)\<close>: the falsy values are \<open>undefined\<close>, \<open>null\<close>, \<open>false\<close>, \<open>0\<close> and
  the empty string.\<close>

fun truthy :: "jsval \<Rightarrow> bool" where
  "truthy Undefined = False"
| "truthy Null = False"
| "truthy (JBool b) = b"
| "truthy (JNum k) = (k \<noteq> 0)"
| "truthy (JStr s) = (s \<noteq> [])"
| "truthy _ = True"

fun typeof :: "jsval \<Rightarrow> string" where
  "typeof Undefined = ''undefined''"
| "typeof Null = ''object''"
| "typeof (JBool b) = ''boolean''"
| "typeof (JNum k) = ''number''"
| "typeof (JStr s) = ''string''"
| "typeof (JFun f) = ''function''"
| "typeof _ = ''object''"

text \<open>\<open>typeof x[Symbol.iterator]\<close>: reading a member of \<open>null\<close> or \<open>undefined\<close> throws;
  strings, arrays, collections and generator objects inherit the method from their
  prototype.\<close>

fun typeof_iterator :: "jsval \<Rightarrow> error + string" where
  "typeof_iterator Undefined = Inl RuntimeTypeError"
| "typeof_iterator Null = Inl RuntimeTypeError"
| "typeof_iterator (JStr s) = Inr ''function''"
| "typeof_iterator (JArr xs) = Inr ''function''"
| "typeof_iterator (JIter xs) = Inr ''function''"
| "typeof_iterator (JGen g) = Inr ''function''"
| "typeof_iterator JOdd = Inr ''number''"
| "typeof_iterator _ = Inr ''undefined''"

text \<open>\<open>typeof x[Symbol.asyncIterator]\<close>.\<close>

fun typeof_asyncIterator :: "jsval \<Rightarrow> error + string" where
  "typeof_asyncIterator Undefined = Inl RuntimeTypeError"
| "typeof_asyncIterator Null = Inl RuntimeTypeError"
| "typeof_asyncIterator (JAsyncIter xs) = Inr ''function''"
| "typeof_asyncIterator (JAsyncGen g) = Inr ''function''"
| "typeof_asyncIterator JOdd = Inr ''number''"
| "typeof_asyncIterator _ = Inr ''undefined''"

section \<open>The classifier (util.ts)\<close>

text \<open>\<open>Boolean(x) && typeof x[Symbol.iterator] === 'function'\<close>: the member is read only
  when \<open>Boolean(x)\<close> holds.\<close>

definition isIterable :: "jsval \<Rightarrow> error + bool" where
  "isIterable x =
     (if truthy x
      then (case typeof_iterator x of Inl e \<Rightarrow> Inl e | Inr t \<Rightarrow> Inr (t = ''function''))
      else Inr False)"

definition isAsyncIterable :: "jsval \<Rightarrow> error + bool" where
  "isAsyncIterable x =
     (if truthy x
      then (case typeof_asyncIterator x of Inl e \<Rightarrow> Inl e | Inr t \<Rightarrow> Inr (t = ''function''))
      else Inr False)"

section \<open>The store: cursors, generator objects, functions\<close>

datatype mode = Sync | Async

text \<open>The source of a \<open>for (const x of a)\<close> loop inside a generator: the loop has not been
  entered yet, or it runs on a cursor of the store.\<close>

datatype src = Pending jsval | Cursor nat

text \<open>
  A cursor of the store. \<open>ArrayIt xs\<close> is a built-in cursor (of an array, a string or a
  collection) with \<open>xs\<close> still to come; it has no \<open>return\<close> method. \<open>YieldG xs\<close> is the
  generator object of a user's \<open>function*() { yield x1; ...; yield xn }\<close> with \<open>xs\<close> still to
  be yielded. The others are the generator objects of the library's stages, one
  constructor per place where the body can be suspended; the mode says whether the body is
  a \<open>function*\<close> of FluentIterable or an \<open>async function*\<close> of FluentAsyncIterable. The stack
  of \<open>FlatRun\<close> has its top at the head. \<open>Done\<close> is a completed generator.
\<close>

datatype gen =
    ArrayIt "jsval list"
  | YieldG "jsval list"
  | MapG mode "jsval \<Rightarrow> jsval" src
  | FilterG mode "jsval \<Rightarrow> bool" src
  | Concat1 mode src jsval
  | Concat2 mode src
  | FlatG mode jsval
  | FlatRun mode "nat list"
  | EnumG mode src int
  | ZipG mode jsval jsval
  | ZipRun mode nat nat
  | Done

text \<open>A function object: a supplier returning a fixed value; a function whose call
  throws (a supplier that raises, or a class, which cannot be called without \<open>new\<close>);
  or a generator function, each call of which makes a new generator object in the given
  initial state.\<close>

datatype func = Supplier jsval | Throwing error | GeneratorFn mode gen

record state =
  heap :: "gen list"
  funs :: "func list"
  calls :: "nat list"

text \<open>References come from allocation only; one outside the store reads as a completed
  generator.\<close>

definition lookup :: "gen list \<Rightarrow> nat \<Rightarrow> gen" where
  "lookup h r = (if r < length h then h ! r else Done)"

datatype iter_result = IterResult (isdone: bool) (valof: jsval)

definition finished :: iter_result where
  "finished = IterResult True Undefined"

text \<open>\<open>x[Symbol.iterator]()\<close>, which is also what \<open>for (... of x)\<close> does first. A string
  gives its characters as one-character strings; a generator object is its own cursor.\<close>

fun call_iterator :: "jsval \<Rightarrow> gen list \<Rightarrow> (error + nat) \<times> gen list" where
  "call_iterator (JArr xs) h = (Inr (length h), h @ [ArrayIt xs])"
| "call_iterator (JStr s) h = (Inr (length h), h @ [ArrayIt (map (\<lambda>c. JStr [c]) s)])"
| "call_iterator (JIter xs) h = (Inr (length h), h @ [ArrayIt xs])"
| "call_iterator (JGen g) h = (Inr g, h)"
| "call_iterator x h = (Inl RuntimeTypeError, h)"

text \<open>\<open>x[Symbol.asyncIterator]()\<close>.\<close>

fun call_asyncIterator :: "jsval \<Rightarrow> gen list \<Rightarrow> (error + nat) \<times> gen list" where
  "call_asyncIterator (JAsyncIter xs) h = (Inr (length h), h @ [ArrayIt xs])"
| "call_asyncIterator (JAsyncGen g) h = (Inr g, h)"
| "call_asyncIterator x h = (Inl RuntimeTypeError, h)"

text \<open>The member call written in \<open>flat\<close> and \<open>zip\<close>: \<open>a[Symbol.iterator]()\<close> in
  FluentIterable, \<open>a[Symbol.asyncIterator]()\<close> in FluentAsyncIterable.\<close>

fun method_iterator :: "mode \<Rightarrow> jsval \<Rightarrow> gen list \<Rightarrow> (error + nat) \<times> gen list" where
  "method_iterator Sync x h = call_iterator x h"
| "method_iterator Async x h = call_asyncIterator x h"

text \<open>The cursor a loop starts on: \<open>for (... of x)\<close> calls \<open>x[Symbol.iterator]()\<close>;
  \<open>for await (... of x)\<close> calls \<open>x[Symbol.asyncIterator]()\<close> and, where that member is
  missing, falls back to \<open>x[Symbol.iterator]()\<close>.\<close>

fun loop_iterator :: "mode \<Rightarrow> jsval \<Rightarrow> gen list \<Rightarrow> (error + nat) \<times> gen list" where
  "loop_iterator Sync x h = call_iterator x h"
| "loop_iterator Async x h =
     (case typeof_asyncIterator x of
        Inl e \<Rightarrow> (Inl e, h)
      | Inr t \<Rightarrow>
          if t = ''function'' then call_asyncIterator x h
          else if t = ''undefined'' then call_iterator x h
          else (Inl RuntimeTypeError, h))"

fun open_src :: "mode \<Rightarrow> src \<Rightarrow> gen list \<Rightarrow> (error + nat) \<times> gen list" where
  "open_src m (Cursor c) h = (Inr c, h)"
| "open_src m (Pending a) h = loop_iterator m a h"

text \<open>The branch of \<open>flat\<close>'s loop on a produced element: \<open>Inr (Some (c, h'))\<close> when the
  element is descended into on the new cursor \<open>c\<close>, \<open>Inr None\<close> when it is a leaf. The async
  body asks \<open>isAsyncIterable\<close> first and \<open>isIterable\<close> second; the sync body asks
  \<open>isIterable\<close> only.\<close>

fun descend_sync :: "jsval \<Rightarrow> gen list \<Rightarrow> error + (nat \<times> gen list) option" where
  "descend_sync v h =
     (case isIterable v of
        Inl e \<Rightarrow> Inl e
      | Inr b \<Rightarrow>
          if b then (case call_iterator v h of (Inl e, h') \<Rightarrow> Inl e | (Inr c, h') \<Rightarrow> Inr (Some (c, h')))
          else Inr None)"

fun descend :: "mode \<Rightarrow> jsval \<Rightarrow> gen list \<Rightarrow> error + (nat \<times> gen list) option" where
  "descend Sync v h = descend_sync v h"
| "descend Async v h =
     (case isAsyncIterable v of
        Inl e \<Rightarrow> Inl e
      | Inr b \<Rightarrow>
          if b then (case call_asyncIterator v h of (Inl e, h') \<Rightarrow> Inl e | (Inr c, h') \<Rightarrow> Inr (Some (c, h')))
          else descend_sync v h)"

section \<open>Advancing a cursor\<close>

text \<open>
  \<open>next_it n r h\<close> is \<open>r.next()\<close> in store \<open>h\<close>: the result (or the error thrown) and the
  store afterwards. A generator body that pulls from another cursor calls \<open>next_it\<close> on
  it, and a body that loops without yielding re-enters itself; \<open>n\<close> bounds the depth of
  these calls, and \<open>None\<close> says that \<open>n\<close> was not enough. \<open>await\<close> on a settled value is
  the value: the model runs one consumer and resolves every request in the order it was
  issued. A generator that returns or throws is completed. In \<open>zip\<close> the sync body asks
  \<open>bi.next()\<close> only after \<open>ai.next()\<close> has returned, so not when it threw; the async
  body issues both requests inside \<open>Promise.all\<close> before it looks at either result.
\<close>

primrec next_it :: "nat \<Rightarrow> nat \<Rightarrow> gen list \<Rightarrow> ((error + iter_result) \<times> gen list) option" where
  "next_it 0 r h = None"
| "next_it (Suc n) r h =
    (case lookup h r of
       Done \<Rightarrow> Some (Inr finished, h)
     | ArrayIt xs \<Rightarrow>
         (case xs of
            [] \<Rightarrow> Some (Inr finished, h)
          | x # xs' \<Rightarrow> Some (Inr (IterResult False x), h[r := ArrayIt xs']))
     | YieldG xs \<Rightarrow>
         (case xs of
            [] \<Rightarrow> Some (Inr finished, h[r := Done])
          | x # xs' \<Rightarrow> Some (Inr (IterResult False x), h[r := YieldG xs']))
     | MapG m fn s \<Rightarrow>
         (case open_src m s h of
            (Inl e, h1) \<Rightarrow> Some (Inl e, h1[r := Done])
          | (Inr c, h1) \<Rightarrow>
              (case next_it n c h1 of
                 None \<Rightarrow> None
               | Some (Inl e, h2) \<Rightarrow> Some (Inl e, h2[r := Done])
               | Some (Inr x, h2) \<Rightarrow>
                   if isdone x then Some (Inr finished, h2[r := Done])
                   else Some (Inr (IterResult False (fn (valof x))), h2[r := MapG m fn (Cursor c)])))
     | FilterG m predicate s \<Rightarrow>
         (case open_src m s h of
            (Inl e, h1) \<Rightarrow> Some (Inl e, h1[r := Done])
          | (Inr c, h1) \<Rightarrow>
              (case next_it n c h1 of
                 None \<Rightarrow> None
               | Some (Inl e, h2) \<Rightarrow> Some (Inl e, h2[r := Done])
               | Some (Inr x, h2) \<Rightarrow>
                   if isdone x then Some (Inr finished, h2[r := Done])
                   else if predicate (valof x)
                   then Some (Inr (IterResult False (valof x)), h2[r := FilterG m predicate (Cursor c)])
                   else next_it n r (h2[r := FilterG m predicate (Cursor c)])))
     | Concat1 m s other \<Rightarrow>
         (case open_src m s h of
            (Inl e, h1) \<Rightarrow> Some (Inl e, h1[r := Done])
          | (Inr c, h1) \<Rightarrow>
              (case next_it n c h1 of
                 None \<Rightarrow> None
               | Some (Inl e, h2) \<Rightarrow> Some (Inl e, h2[r := Done])
               | Some (Inr x, h2) \<Rightarrow>
                   if isdone x then next_it n r (h2[r := Concat2 m (Pending other)])
                   else Some (Inr (IterResult False (valof x)), h2[r := Concat1 m (Cursor c) other])))
     | Concat2 m s \<Rightarrow>
         (case open_src m s h of
            (Inl e, h1) \<Rightarrow> Some (Inl e, h1[r := Done])
          | (Inr c, h1) \<Rightarrow>
              (case next_it n c h1 of
                 None \<Rightarrow> None
               | Some (Inl e, h2) \<Rightarrow> Some (Inl e, h2[r := Done])
               | Some (Inr x, h2) \<Rightarrow>
                   if isdone x then Some (Inr finished, h2[r := Done])
                   else Some (Inr (IterResult False (valof x)), h2[r := Concat2 m (Cursor c)])))
     | FlatG m a \<Rightarrow>
         (case method_iterator m a h of
            (Inl e, h1) \<Rightarrow> Some (Inl e, h1[r := Done])
          | (Inr c, h1) \<Rightarrow> next_it n r (h1[r := FlatRun m [c]]))
     | FlatRun m stack \<Rightarrow>
         (case stack of
            [] \<Rightarrow> Some (Inr finished, h[r := Done])
          | c # cs \<Rightarrow>
              (case next_it n c h of
                 None \<Rightarrow> None
               | Some (Inl e, h1) \<Rightarrow> Some (Inl e, h1[r := Done])
               | Some (Inr x, h1) \<Rightarrow>
                   if isdone x then next_it n r (h1[r := FlatRun m cs])
                   else (case descend m (valof x) h1 of
                           Inl e \<Rightarrow> Some (Inl e, h1[r := Done])
                         | Inr (Some (c', h2)) \<Rightarrow> next_it n r (h2[r := FlatRun m (c' # c # cs)])
                         | Inr None \<Rightarrow>
                             Some (Inr (IterResult False (valof x)), h1[r := FlatRun m (c # cs)]))))
     | EnumG m s i \<Rightarrow>
         (case open_src m s h of
            (Inl e, h1) \<Rightarrow> Some (Inl e, h1[r := Done])
          | (Inr c, h1) \<Rightarrow>
              (case next_it n c h1 of
                 None \<Rightarrow> None
               | Some (Inl e, h2) \<Rightarrow> Some (Inl e, h2[r := Done])
               | Some (Inr x, h2) \<Rightarrow>
                   if isdone x then Some (Inr finished, h2[r := Done])
                   else Some (Inr (IterResult False (JArr [JNum i, valof x])),
                              h2[r := EnumG m (Cursor c) (i + 1)])))
     | ZipG m a other \<Rightarrow>
         (case method_iterator m a h of
            (Inl e, h1) \<Rightarrow> Some (Inl e, h1[r := Done])
          | (Inr ai, h1) \<Rightarrow>
              (case method_iterator m other h1 of
                 (Inl e, h2) \<Rightarrow> Some (Inl e, h2[r := Done])
               | (Inr bi, h2) \<Rightarrow> next_it n r (h2[r := ZipRun m ai bi])))
     | ZipRun m ai bi \<Rightarrow>
         (case next_it n ai h of
            None \<Rightarrow> None
          | Some (nexta, h1) \<Rightarrow>
              if m = Sync \<and> isl nexta then Some (Inl (projl nexta), h1[r := Done])
              else (case next_it n bi h1 of
                      None \<Rightarrow> None
                    | Some (nextb, h2) \<Rightarrow>
                        (case nexta of
                           Inl e \<Rightarrow> Some (Inl e, h2[r := Done])
                         | Inr na \<Rightarrow>
                             (case nextb of
                                Inl e \<Rightarrow> Some (Inl e, h2[r := Done])
                              | Inr nb \<Rightarrow>
                                  if isdone na \<or> isdone nb
                                  then Some (Inr (IterResult True (JArr [valof na, valof nb])), h2[r := Done])
                                  else Some (Inr (IterResult False (JArr [valof na, valof nb])),
                                             h2[r := ZipRun m ai bi]))))))"

text \<open>
  \<open>r.return()\<close> as a loop calls it when it is left early. A built-in cursor has no such
  method. A generator suspended inside a \<open>for\<close> loop leaves that loop in turn, closing the
  loop's cursor; \<open>flat\<close> and \<open>zip\<close> pull by hand and close nothing.
\<close>

primrec close_it :: "nat \<Rightarrow> nat \<Rightarrow> gen list \<Rightarrow> gen list option" where
  "close_it 0 r h = None"
| "close_it (Suc n) r h =
    (case lookup h r of
       ArrayIt xs \<Rightarrow> Some h
     | MapG m fn s \<Rightarrow>
         (case s of
            Pending a \<Rightarrow> Some (h[r := Done])
          | Cursor c \<Rightarrow> (case close_it n c h of None \<Rightarrow> None | Some h1 \<Rightarrow> Some (h1[r := Done])))
     | FilterG m predicate s \<Rightarrow>
         (case s of
            Pending a \<Rightarrow> Some (h[r := Done])
          | Cursor c \<Rightarrow> (case close_it n c h of None \<Rightarrow> None | Some h1 \<Rightarrow> Some (h1[r := Done])))
     | Concat1 m s other \<Rightarrow>
         (case s of
            Pending a \<Rightarrow> Some (h[r := Done])
          | Cursor c \<Rightarrow> (case close_it n c h of None \<Rightarrow> None | Some h1 \<Rightarrow> Some (h1[r := Done])))
     | Concat2 m s \<Rightarrow>
         (case s of
            Pending a \<Rightarrow> Some (h[r := Done])
          | Cursor c \<Rightarrow> (case close_it n c h of None \<Rightarrow> None | Some h1 \<Rightarrow> Some (h1[r := Done])))
     | EnumG m s i \<Rightarrow>
         (case s of
            Pending a \<Rightarrow> Some (h[r := Done])
          | Cursor c \<Rightarrow> (case close_it n c h of None \<Rightarrow> None | Some h1 \<Rightarrow> Some (h1[r := Done])))
     | _ \<Rightarrow> Some (h[r := Done]))"

section \<open>Consuming a cursor\<close>

text \<open>Pull until the cursor is done, collecting what it produces, as \<open>Array.from\<close> and
  the \<open>for await ... arr.push(x)\<close> loop of \<open>toArray\<close> do.\<close>

primrec drain :: "nat \<Rightarrow> nat \<Rightarrow> gen list \<Rightarrow> ((error + jsval list) \<times> gen list) option" where
  "drain 0 c h = None"
| "drain (Suc n) c h =
    (case next_it n c h of
       None \<Rightarrow> None
     | Some (Inl e, h1) \<Rightarrow> Some (Inl e, h1)
     | Some (Inr x, h1) \<Rightarrow>
         if isdone x then Some (Inr [], h1)
         else (case drain n c h1 of
                 None \<Rightarrow> None
               | Some (Inl e, h2) \<Rightarrow> Some (Inl e, h2)
               | Some (Inr vs, h2) \<Rightarrow> Some (Inr (valof x # vs), h2)))"

text \<open>\<open>for (const x of ...) { if (!predicate(x)) return false; } return true\<close>: leaving
  the loop by \<open>return\<close> closes the cursor.\<close>

primrec all_loop :: "nat \<Rightarrow> (jsval \<Rightarrow> bool) \<Rightarrow> nat \<Rightarrow> gen list \<Rightarrow> ((error + bool) \<times> gen list) option" where
  "all_loop 0 predicate c h = None"
| "all_loop (Suc n) predicate c h =
    (case next_it n c h of
       None \<Rightarrow> None
     | Some (Inl e, h1) \<Rightarrow> Some (Inl e, h1)
     | Some (Inr x, h1) \<Rightarrow>
         if isdone x then Some (Inr True, h1)
         else if \<not> predicate (valof x)
         then (case close_it n c h1 of None \<Rightarrow> None | Some h2 \<Rightarrow> Some (Inr False, h2))
         else all_loop n predicate c h1)"

primrec any_loop :: "nat \<Rightarrow> (jsval \<Rightarrow> bool) \<Rightarrow> nat \<Rightarrow> gen list \<Rightarrow> ((error + bool) \<times> gen list) option" where
  "any_loop 0 predicate c h = None"
| "any_loop (Suc n) predicate c h =
    (case next_it n c h of
       None \<Rightarrow> None
     | Some (Inl e, h1) \<Rightarrow> Some (Inl e, h1)
     | Some (Inr x, h1) \<Rightarrow>
         if isdone x then Some (Inr False, h1)
         else if predicate (valof x)
         then (case close_it n c h1 of None \<Rightarrow> None | Some h2 \<Rightarrow> Some (Inr True, h2))
         else any_loop n predicate c h1)"

section \<open>Functions and the two wrapper classes\<close>

text \<open>\<open>function* () { ... }\<close> or \<open>() => v\<close>: a new function object.\<close>

definition new_function :: "func \<Rightarrow> state \<Rightarrow> jsval \<times> state" where
  "new_function d s = (JFun (length (funs s)), s\<lparr>funs := funs s @ [d]\<rparr>)"

text \<open>\<open>input()\<close>. Every call is written to \<open>calls\<close>. What the function throws, the
  call throws. Calling a generator function runs none of its body: it makes a generator
  object suspended at the start.\<close>

fun call_function :: "jsval \<Rightarrow> state \<Rightarrow> (error + jsval) \<times> state" where
  "call_function (JFun f) s =
     (if f < length (funs s)
      then (case funs s ! f of
              Supplier v \<Rightarrow> (Inr v, s\<lparr>calls := calls s @ [f]\<rparr>)
            | Throwing e \<Rightarrow> (Inl e, s\<lparr>calls := calls s @ [f]\<rparr>)
            | GeneratorFn m g \<Rightarrow>
                (Inr ((case m of Sync \<Rightarrow> JGen | Async \<Rightarrow> JAsyncGen) (length (heap s))),
                 s\<lparr>heap := heap s @ [g], calls := calls s @ [f]\<rparr>))
      else (Inr Undefined, s\<lparr>calls := calls s @ [f]\<rparr>))"
| "call_function x s = (Inl RuntimeTypeError, s)"

text \<open>An object of either class holds its private field \<open>#input\<close>.\<close>

datatype wrapper = FluentIterable (input: jsval) | FluentAsyncIterable (input: jsval)

definition new_FluentIterable :: "jsval \<Rightarrow> state \<Rightarrow> (error + wrapper) \<times> state" where
  "new_FluentIterable inp s =
     (case isIterable inp of
        Inl e \<Rightarrow> (Inl e, s)
      | Inr b \<Rightarrow>
          if b then (Inr (FluentIterable inp), s)
          else if typeof inp = ''function''
          then (case call_function inp s of
                  (Inl e, s1) \<Rightarrow> (Inl e, s1)
                | (Inr v, s1) \<Rightarrow> (Inr (FluentIterable v), s1))
          else (Inl (TypeError ''input is not an iterable''), s))"

definition new_FluentAsyncIterable :: "jsval \<Rightarrow> state \<Rightarrow> (error + wrapper) \<times> state" where
  "new_FluentAsyncIterable inp s =
     (case isAsyncIterable inp of
        Inl e \<Rightarrow> (Inl e, s)
      | Inr b \<Rightarrow>
          if b then (Inr (FluentAsyncIterable inp), s)
          else if typeof inp = ''function''
          then (case call_function inp s of
                  (Inl e, s1) \<Rightarrow> (Inl e, s1)
                | (Inr v, s1) \<Rightarrow> (Inr (FluentAsyncIterable v), s1))
          else (Inl (TypeError ''input is not an async iterable''), s))"

text \<open>\<open>new FluentIterable(function* () { body })\<close>, and its async twin: what every
  transformation method returns.\<close>

fun new_stage :: "wrapper \<Rightarrow> (mode \<Rightarrow> jsval \<Rightarrow> gen) \<Rightarrow> state \<Rightarrow> (error + wrapper) \<times> state" where
  "new_stage (FluentIterable a) body s =
     (case new_function (GeneratorFn Sync (body Sync a)) s of (f, s1) \<Rightarrow> new_FluentIterable f s1)"
| "new_stage (FluentAsyncIterable a) body s =
     (case new_function (GeneratorFn Async (body Async a)) s of (f, s1) \<Rightarrow> new_FluentAsyncIterable f s1)"

section \<open>Transformation methods\<close>

definition map_fi :: "(jsval \<Rightarrow> jsval) \<Rightarrow> wrapper \<Rightarrow> state \<Rightarrow> (error + wrapper) \<times> state" where
  "map_fi fn this s = new_stage this (\<lambda>m a. MapG m fn (Pending a)) s"

definition filter_fi :: "(jsval \<Rightarrow> bool) \<Rightarrow> wrapper \<Rightarrow> state \<Rightarrow> (error + wrapper) \<times> state" where
  "filter_fi predicate this s = new_stage this (\<lambda>m a. FilterG m predicate (Pending a)) s"

definition concat_fi :: "jsval \<Rightarrow> wrapper \<Rightarrow> state \<Rightarrow> (error + wrapper) \<times> state" where
  "concat_fi other this s = new_stage this (\<lambda>m a. Concat1 m (Pending a) other) s"

definition flat :: "wrapper \<Rightarrow> state \<Rightarrow> (error + wrapper) \<times> state" where
  "flat this s = new_stage this (\<lambda>m a. FlatG m a) s"

definition enumerate_fi :: "wrapper \<Rightarrow> state \<Rightarrow> (error + wrapper) \<times> state" where
  "enumerate_fi this s = new_stage this (\<lambda>m a. EnumG m (Pending a) 0) s"

definition zip_fi :: "jsval \<Rightarrow> wrapper \<Rightarrow> state \<Rightarrow> (error + wrapper) \<times> state" where
  "zip_fi other this s = new_stage this (\<lambda>m a. ZipG m a other) s"

section \<open>Terminal methods\<close>

definition on_heap :: "('a \<times> gen list) option \<Rightarrow> state \<Rightarrow> ('a \<times> state) option" where
  "on_heap res s = (case res of None \<Rightarrow> None | Some (x, h) \<Rightarrow> Some (x, s\<lparr>heap := h\<rparr>))"

text \<open>\<open>Array.from(x)\<close>: \<open>null\<close> and \<open>undefined\<close> throw; a value with a callable
  \<open>Symbol.iterator\<close> member is traversed; one without the member is read as an array-like
  object, whose missing \<open>length\<close> counts as 0 (so is the \<open>length\<close> of a function without
  parameters); a member that is not callable throws.\<close>

definition Array_from :: "nat \<Rightarrow> jsval \<Rightarrow> gen list \<Rightarrow> ((error + jsval list) \<times> gen list) option" where
  "Array_from n x h =
     (case typeof_iterator x of
        Inl e \<Rightarrow> Some (Inl e, h)
      | Inr t \<Rightarrow>
          if t = ''undefined'' then Some (Inr [], h)
          else if t = ''function''
          then (case call_iterator x h of
                  (Inl e, h1) \<Rightarrow> Some (Inl e, h1)
                | (Inr c, h1) \<Rightarrow> drain n c h1)
          else Some (Inl RuntimeTypeError, h))"

fun toArray :: "nat \<Rightarrow> wrapper \<Rightarrow> state \<Rightarrow> ((error + jsval list) \<times> state) option" where
  "toArray n (FluentIterable a) s = on_heap (Array_from n a (heap s)) s"
| "toArray n (FluentAsyncIterable a) s =
     on_heap (case loop_iterator Async a (heap s) of
                (Inl e, h1) \<Rightarrow> Some (Inl e, h1)
              | (Inr c, h1) \<Rightarrow> drain n c h1) s"

definition mode_of :: "wrapper \<Rightarrow> mode" where
  "mode_of this = (case this of FluentIterable a \<Rightarrow> Sync | FluentAsyncIterable a \<Rightarrow> Async)"

definition all :: "nat \<Rightarrow> (jsval \<Rightarrow> bool) \<Rightarrow> wrapper \<Rightarrow> state \<Rightarrow> ((error + bool) \<times> state) option" where
  "all n predicate this s =
     on_heap (case loop_iterator (mode_of this) (input this) (heap s) of
                (Inl e, h1) \<Rightarrow> Some (Inl e, h1)
              | (Inr c, h1) \<Rightarrow> all_loop n predicate c h1) s"

definition every :: "nat \<Rightarrow> (jsval \<Rightarrow> bool) \<Rightarrow> wrapper \<Rightarrow> state \<Rightarrow> ((error + bool) \<times> state) option" where
  "every n predicate this s = all n predicate this s"

definition any :: "nat \<Rightarrow> (jsval \<Rightarrow> bool) \<Rightarrow> wrapper \<Rightarrow> state \<Rightarrow> ((error + bool) \<times> state) option" where
  "any n predicate this s =
     on_heap (case loop_iterator (mode_of this) (input this) (heap s) of
                (Inl e, h1) \<Rightarrow> Some (Inl e, h1)
              | (Inr c, h1) \<Rightarrow> any_loop n predicate c h1) s"

definition some :: "nat \<Rightarrow> (jsval \<Rightarrow> bool) \<Rightarrow> wrapper \<Rightarrow> state \<Rightarrow> ((error + bool) \<times> state) option" where
  "some n predicate this s = any n predicate this s"

text \<open>A store with nothing in it.\<close>

definition empty_state :: state where
  "empty_state = \<lparr>heap = [], funs = [], calls = []\<rparr>"

section \<open>Notions the properties are stated with\<close>

text \<open>
  What \<open>flat\<close> is expected to produce. \<open>nested m v\<close> gives the elements of a value that
  is a sequence for the body of mode \<open>m\<close>: arrays and collections in both, \<open>JAsyncIter\<close>
  in the async body only. \<open>leaves m v\<close> lists, depth first, the values below \<open>v\<close> that are
  not such sequences. \<open>finite_tree m v\<close> says that \<open>v\<close> is built from these sequences
  and from values the classifier of mode \<open>m\<close> refuses; it leaves out generator objects,
  whose elements depend on the store, and non-empty strings.
\<close>

fun nested :: "mode \<Rightarrow> jsval \<Rightarrow> jsval list option" where
  "nested m (JArr xs) = Some xs"
| "nested m (JIter xs) = Some xs"
| "nested m (JAsyncIter xs) = (case m of Sync \<Rightarrow> None | Async \<Rightarrow> Some xs)"
| "nested m v = None"

fun leaves :: "mode \<Rightarrow> jsval \<Rightarrow> jsval list" where
  "leaves m (JArr xs) = concat (map (leaves m) xs)"
| "leaves m (JIter xs) = concat (map (leaves m) xs)"
| "leaves m (JAsyncIter xs) =
     (case m of Sync \<Rightarrow> [JAsyncIter xs] | Async \<Rightarrow> concat (map (leaves m) xs))"
| "leaves m v = [v]"

fun finite_tree :: "mode \<Rightarrow> jsval \<Rightarrow> bool" where
  "finite_tree m (JArr xs) = (\<forall>x \<in> set xs. finite_tree m x)"
| "finite_tree m (JIter xs) = (\<forall>x \<in> set xs. finite_tree m x)"
| "finite_tree m (JAsyncIter xs) =
     (case m of Sync \<Rightarrow> True | Async \<Rightarrow> \<forall>x \<in> set xs. finite_tree m x)"
| "finite_tree m (JStr s) = (s = [])"
| "finite_tree m (JGen g) = False"
| "finite_tree m (JAsyncGen g) = (m = Sync)"
| "finite_tree m v = True"

text \<open>The size of a value as a tree, by which the flattening loop is shown to end.\<close>

fun tsize :: "jsval \<Rightarrow> nat" where
  "tsize (JArr xs) = 2 + sum_list (map tsize xs)"
| "tsize (JIter xs) = 2 + sum_list (map tsize xs)"
| "tsize (JAsyncIter xs) = 2 + sum_list (map tsize xs)"
| "tsize v = 1"

text \<open>\<open>yields h r vs h'\<close>: pulled from store \<open>h\<close> until it is done, cursor \<open>r\<close> produces
  \<open>vs\<close> and leaves the store \<open>h'\<close>; every single request returns with some bound.\<close>

inductive yields :: "gen list \<Rightarrow> nat \<Rightarrow> jsval list \<Rightarrow> gen list \<Rightarrow> bool" where
  yields_done: "next_it n r h = Some (Inr x, h') \<Longrightarrow> isdone x \<Longrightarrow> yields h r [] h'"
| yields_step: "next_it n r h = Some (Inr x, h1) \<Longrightarrow> \<not> isdone x \<Longrightarrow> yields h1 r vs h'
     \<Longrightarrow> yields h r (valof x # vs) h'"

text \<open>\<open>never_done h r\<close>: pulled from store \<open>h\<close>, cursor \<open>r\<close> never reports that it is
  done: after finitely many elements a request returns with no bound.\<close>

inductive never_done :: "gen list \<Rightarrow> nat \<Rightarrow> bool" where
  never_done_stuck: "(\<And>n. next_it n r h = None) \<Longrightarrow> never_done h r"
| never_done_later: "next_it n r h = Some (Inr x, h1) \<Longrightarrow> \<not> isdone x \<Longrightarrow> never_done h1 r
     \<Longrightarrow> never_done h r"

text \<open>
  The state of the flattening loop seen from outside: the frames of its stack, top
  first, each a cursor with the elements it has still to produce. \<open>pending\<close> is what
  the loop will emit from there, \<open>weight\<close> the measure that every round of the loop
  decreases, \<open>flat_inv\<close> the invariant that ties the frames to the store.
\<close>

definition pending :: "mode \<Rightarrow> (nat \<times> jsval list) list \<Rightarrow> jsval list" where
  "pending m fs = concat (map (\<lambda>(c, xs). concat (map (leaves m) xs)) fs)"

definition weight :: "(nat \<times> jsval list) list \<Rightarrow> nat" where
  "weight fs = sum_list (map (\<lambda>(c, xs). 1 + sum_list (map tsize xs)) fs)"

fun frames_ok :: "mode \<Rightarrow> gen list \<Rightarrow> (nat \<times> jsval list) list \<Rightarrow> bool" where
  "frames_ok m h [] = True"
| "frames_ok m h ((c, xs) # fs) =
     (lookup h c = ArrayIt xs \<and> (\<forall>x \<in> set xs. finite_tree m x) \<and> c \<notin> fst ` set fs \<and> frames_ok m h fs)"

definition flat_inv :: "mode \<Rightarrow> gen list \<Rightarrow> nat \<Rightarrow> (nat \<times> jsval list) list \<Rightarrow> bool" where
  "flat_inv m h r fs \<longleftrightarrow>
     lookup h r = FlatRun m (map fst fs) \<and> r \<notin> fst ` set fs \<and> frames_ok m h fs"

text \<open>\<open>wraps w xs\<close>: \<open>w\<close> is a wrapper of either class around a restartable sequence of its
  own capability with the elements \<open>xs\<close>.\<close>

definition wraps :: "wrapper \<Rightarrow> jsval list \<Rightarrow> bool" where
  "wraps w xs \<longleftrightarrow>
     w = FluentIterable (JArr xs) \<or> w = FluentIterable (JIter xs) \<or> w = FluentAsyncIterable (JAsyncIter xs)"

text \<open>The pair \<open>[a, b]\<close> that \<open>zip\<close> emits.\<close>

definition pair :: "jsval \<times> jsval \<Rightarrow> jsval" where
  "pair ab = JArr [fst ab, snd ab]"

section \<open>The store and single requests\<close>

lemma lookup_new [simp]: "lookup (h @ [g]) (length h) = g"
  by (simp add: lookup_def)

lemma lookup_old [simp]: "r < length h \<Longrightarrow> lookup (h @ [g]) r = lookup h r"
  by (simp add: lookup_def nth_append)

lemma lookup_update:
  "lookup (h[r := g]) c = (if c = r \<and> r < length h then g else lookup h c)"
  by (simp add: lookup_def)

lemma lookup_lt: "lookup h r \<noteq> Done \<Longrightarrow> r < length h"
  by (simp add: lookup_def split: if_splits)

declare next_it.simps(2) [simp del]

lemma next_it_Suc: "next_it n r h = Some y \<Longrightarrow> next_it (Suc n) r h = Some y"
proof (induction n arbitrary: r h y)
  case 0
  then show ?case by simp
next
  case (Suc n)
  from Suc.prems have A: "next_it (Suc n) r h = Some y" .
  show ?case
  proof (cases "lookup h r")
    case (ArrayIt xs)
    with A show ?thesis by (simp add: next_it.simps(2)[of _ r h] split: list.splits)
  next
    case (YieldG xs)
    with A show ?thesis by (simp add: next_it.simps(2)[of _ r h] split: list.splits)
  next
    case (MapG m fn s)
    with A show ?thesis
      by (auto simp: next_it.simps(2)[of _ r h]
               split: list.splits prod.splits sum.splits option.splits if_splits dest!: Suc.IH)
  next
    case (FilterG m p s)
    with A show ?thesis
      by (auto simp: next_it.simps(2)[of _ r h]
               split: list.splits prod.splits sum.splits option.splits if_splits dest!: Suc.IH)
  next
    case (Concat1 m s other)
    with A show ?thesis
      by (auto simp: next_it.simps(2)[of _ r h]
               split: list.splits prod.splits sum.splits option.splits if_splits dest!: Suc.IH)
  next
    case (Concat2 m s)
    with A show ?thesis
      by (auto simp: next_it.simps(2)[of _ r h]
               split: list.splits prod.splits sum.splits option.splits if_splits dest!: Suc.IH)
  next
    case (FlatG m a)
    with A show ?thesis
      by (auto simp: next_it.simps(2)[of _ r h]
               split: list.splits prod.splits sum.splits option.splits if_splits dest!: Suc.IH)
  next
    case (FlatRun m st)
    with A show ?thesis
      by (auto simp: next_it.simps(2)[of _ r h]
               split: list.splits prod.splits sum.splits option.splits if_splits dest!: Suc.IH)
  next
    case (EnumG m s i)
    with A show ?thesis
      by (auto simp: next_it.simps(2)[of _ r h]
               split: list.splits prod.splits sum.splits option.splits if_splits dest!: Suc.IH)
  next
    case (ZipG m a other)
    with A show ?thesis
      by (auto simp: next_it.simps(2)[of _ r h]
               split: list.splits prod.splits sum.splits option.splits if_splits dest!: Suc.IH)
  next
    case (ZipRun m ai bi)
    with A show ?thesis
      by (auto simp: next_it.simps(2)[of _ r h]
               split: list.splits prod.splits sum.splits option.splits if_splits dest!: Suc.IH)
  next
    case Done
    with A show ?thesis by (simp add: next_it.simps(2)[of _ r h])
  qed
qed

lemma next_it_mono: "next_it n r h = Some y \<Longrightarrow> n \<le> k \<Longrightarrow> next_it k r h = Some y"
proof (induction k)
  case 0
  then show ?case by simp
next
  case (Suc k)
  show ?case
  proof (cases "n = Suc k")
    case True
    with Suc.prems show ?thesis by blast
  next
    case False
    with Suc.prems have "n \<le> k" by arith
    then have "next_it k r h = Some y" using Suc.IH Suc.prems(1) by blast
    then show ?thesis by (rule next_it_Suc)
  qed
qed

lemma next_it_pos: "next_it n r h = Some y \<Longrightarrow> 0 < n"
  by (cases n) simp_all

lemma yields_drain: "yields h r vs h' \<Longrightarrow> \<exists>N. \<forall>n\<ge>N. drain n r h = Some (Inr vs, h')"
proof (induction rule: yields.induct)
  case (yields_done n r h x h')
  have "drain k r h = Some (Inr [], h')" if "Suc n \<le> k" for k
  proof -
    from that obtain j where j: "k = Suc j" "n \<le> j" by (cases k) auto
    from next_it_mono [OF yields_done(1) j(2)] yields_done(2) show ?thesis
      unfolding j(1) by simp
  qed
  then show ?case by blast
next
  case (yields_step n r h x h1 vs h')
  from yields_step.IH obtain N where N: "\<And>k. N \<le> k \<Longrightarrow> drain k r h1 = Some (Inr vs, h')" by blast
  have "drain k r h = Some (Inr (valof x # vs), h')" if "Suc (max n N) \<le> k" for k
  proof -
    from that obtain j where j: "k = Suc j" "n \<le> j" "N \<le> j" by (cases k) auto
    from next_it_mono [OF yields_step(1) j(2)] yields_step(2) N [OF j(3)] show ?thesis
      unfolding j(1) by simp
  qed
  then show ?case by blast
qed

lemma yields_silent:
  assumes "\<And>n y. next_it n r h1 = Some y \<Longrightarrow> next_it (Suc n) r h = Some y"
    and "yields h1 r vs h'"
  shows "yields h r vs h'"
  using assms(2)
proof (cases rule: yields.cases)
  case (yields_done n x)
  from assms(1) [OF yields_done(2)] yields_done(3) have "yields h r [] h'"
    by (rule yields.yields_done)
  with yields_done(1) show ?thesis by simp
next
  case (yields_step n x h2 ws)
  from assms(1) [OF yields_step(2)] yields_step(3) yields_step(4)
  have "yields h r (valof x # ws) h'"
    by (rule yields.yields_step)
  with yields_step(1) show ?thesis by simp
qed

lemma next_ArrayIt_Nil: "lookup h c = ArrayIt [] \<Longrightarrow> next_it (Suc n) c h = Some (Inr finished, h)"
  by (simp add: next_it.simps(2))

lemma next_ArrayIt_Cons:
  "lookup h c = ArrayIt (x # xs) \<Longrightarrow> next_it (Suc n) c h = Some (Inr (IterResult False x), h[c := ArrayIt xs])"
  by (simp add: next_it.simps(2))

lemma next_YieldG_Nil: "lookup h c = YieldG [] \<Longrightarrow> next_it (Suc n) c h = Some (Inr finished, h[c := Done])"
  by (simp add: next_it.simps(2))

lemma next_YieldG_Cons:
  "lookup h c = YieldG (x # xs) \<Longrightarrow> next_it (Suc n) c h = Some (Inr (IterResult False x), h[c := YieldG xs])"
  by (simp add: next_it.simps(2))

lemma next_Done: "lookup h c = Done \<Longrightarrow> next_it (Suc n) c h = Some (Inr finished, h)"
  by (simp add: next_it.simps(2))

lemma update_lookup_same: "lookup h c = g \<Longrightarrow> g \<noteq> Done \<Longrightarrow> h[c := g] = h"
  by (auto simp: lookup_def list_update_same_conv split: if_splits)

lemma yields_array: "lookup h c = ArrayIt xs \<Longrightarrow> yields h c xs (h[c := ArrayIt []])"
proof (induction xs arbitrary: h)
  case Nil
  have "yields h c [] h"
    by (rule yields_done [OF next_ArrayIt_Nil [OF Nil, of 0]]) (simp add: finished_def)
  then show ?case using update_lookup_same [OF Nil] by simp
next
  case (Cons x xs)
  then have lt: "c < length h" using lookup_lt[of h c] by simp
  have "yields (h[c := ArrayIt xs]) c xs (h[c := ArrayIt xs, c := ArrayIt []])"
    by (rule Cons.IH) (simp add: lookup_update lt)
  then have "yields h c (valof (IterResult False x) # xs) (h[c := ArrayIt []])"
    using yields_step [OF next_ArrayIt_Cons [OF Cons.prems, of 0]] by simp
  then show ?case by simp
qed

lemma yields_YieldG: "lookup h c = YieldG xs \<Longrightarrow> yields h c xs (h[c := Done])"
proof (induction xs arbitrary: h)
  case Nil
  show ?case
    by (rule yields_done [OF next_YieldG_Nil [OF Nil, of 0]]) (simp add: finished_def)
next
  case (Cons x xs)
  then have lt: "c < length h" using lookup_lt[of h c] by simp
  have "yields (h[c := YieldG xs]) c xs (h[c := YieldG xs, c := Done])"
    by (rule Cons.IH) (simp add: lookup_update lt)
  then have "yields h c (valof (IterResult False x) # xs) (h[c := Done])"
    using yields_step [OF next_YieldG_Cons [OF Cons.prems, of 0]] by simp
  then show ?case by simp
qed

section \<open>The flattening loop\<close>

lemma descend_tree:
  "finite_tree m v \<Longrightarrow>
   descend m v h = (case nested m v of None \<Rightarrow> Inr None | Some ys \<Rightarrow> Inr (Some (length h, h @ [ArrayIt ys])))"
  by (cases v; cases m) (simp_all add: isIterable_def isAsyncIterable_def)

lemma leaves_nested:
  "leaves m v = (case nested m v of None \<Rightarrow> [v] | Some ys \<Rightarrow> concat (map (leaves m) ys))"
  by (cases v; cases m) simp_all

lemma tsize_nested: "nested m v = Some ys \<Longrightarrow> tsize v = 2 + sum_list (map tsize ys)"
  by (cases v; cases m) auto

lemma finite_tree_nested: "nested m v = Some ys \<Longrightarrow> finite_tree m v \<Longrightarrow> y \<in> set ys \<Longrightarrow> finite_tree m y"
  by (cases v; cases m) auto

lemma tsize_pos: "0 < tsize v"
  by (cases v) simp_all

lemma lookup_append:
  "lookup (h @ [g]) d = (if d < length h then lookup h d else if d = length h then g else Done)"
  by (simp add: lookup_def nth_append)

lemma lookup_ArrayIt_lt: "lookup h d = ArrayIt zs \<Longrightarrow> d < length h"
  by (rule lookup_lt) simp

lemma lookup_FlatRun_lt: "lookup h d = FlatRun m cs \<Longrightarrow> d < length h"
  by (rule lookup_lt) simp

lemma next_FlatRun_Nil:
  "lookup h r = FlatRun m [] \<Longrightarrow> next_it (Suc n) r h = Some (Inr finished, h[r := Done])"
  by (simp add: next_it.simps(2))

lemma next_FlatRun_pop:
  "lookup h r = FlatRun m (c # cs) \<Longrightarrow> lookup h c = ArrayIt [] \<Longrightarrow>
   next_it (Suc (Suc n)) r h = next_it (Suc n) r (h[r := FlatRun m cs])"
  by (simp add: next_it.simps(2)[of "Suc n" r h] next_ArrayIt_Nil finished_def)

lemma next_FlatRun_push:
  "lookup h r = FlatRun m (c # cs) \<Longrightarrow> lookup h c = ArrayIt (x # xs) \<Longrightarrow>
   descend m x (h[c := ArrayIt xs]) = Inr (Some (c', h2)) \<Longrightarrow>
   next_it (Suc (Suc n)) r h = next_it (Suc n) r (h2[r := FlatRun m (c' # c # cs)])"
  by (simp add: next_it.simps(2)[of "Suc n" r h] next_ArrayIt_Cons)

lemma next_FlatRun_leaf:
  "lookup h r = FlatRun m (c # cs) \<Longrightarrow> lookup h c = ArrayIt (x # xs) \<Longrightarrow>
   descend m x (h[c := ArrayIt xs]) = Inr None \<Longrightarrow>
   next_it (Suc (Suc n)) r h
     = Some (Inr (IterResult False x), h[c := ArrayIt xs, r := FlatRun m (c # cs)])"
  by (simp add: next_it.simps(2)[of "Suc n" r h] next_ArrayIt_Cons)

lemma frames_ok_update:
  "frames_ok m h fs \<Longrightarrow> d \<notin> fst ` set fs \<Longrightarrow> frames_ok m (h[d := g]) fs"
  by (induction fs) (auto simp: lookup_update)

lemma frames_ok_fresh: "frames_ok m h fs \<Longrightarrow> length h \<notin> fst ` set fs"
proof (induction fs)
  case Nil
  then show ?case by simp
next
  case (Cons p fs)
  obtain c xs where p: "p = (c, xs)" by (cases p)
  from Cons.prems have "c < length h" unfolding p by (auto dest: lookup_ArrayIt_lt)
  with Cons show ?case unfolding p by auto
qed

lemma frames_ok_append: "frames_ok m h fs \<Longrightarrow> frames_ok m (h @ [g]) fs"
  by (induction fs) (auto simp: lookup_append dest: lookup_ArrayIt_lt)

lemma inv_pop:
  assumes "flat_inv m h r ((c, []) # fs)"
  shows "flat_inv m (h[r := FlatRun m (map fst fs)]) r fs"
proof -
  from assms have r: "r < length h" "r \<notin> fst ` set fs" and ok: "frames_ok m h fs"
    unfolding flat_inv_def by (auto dest: lookup_FlatRun_lt)
  from frames_ok_update [OF ok r(2)] r show ?thesis
    unfolding flat_inv_def by (simp add: lookup_update)
qed

lemma inv_leaf:
  assumes "flat_inv m h r ((c, x # xs) # fs)"
  shows "flat_inv m (h[c := ArrayIt xs, r := FlatRun m (c # map fst fs)]) r ((c, xs) # fs)"
proof -
  from assms have r: "r < length h" "r \<notin> fst ` set fs" "r \<noteq> c"
    and c: "c < length h" "c \<notin> fst ` set fs" "\<forall>x \<in> set xs. finite_tree m x"
    and ok: "frames_ok m h fs"
    unfolding flat_inv_def by (auto dest: lookup_FlatRun_lt lookup_ArrayIt_lt)
  have "frames_ok m (h[c := ArrayIt xs, r := FlatRun m (c # map fst fs)]) fs"
    by (intro frames_ok_update ok c r)
  with r c show ?thesis
    unfolding flat_inv_def by (simp add: lookup_update)
qed

lemma inv_push:
  assumes "flat_inv m h r ((c, x # xs) # fs)" and "nested m x = Some ys"
  shows "flat_inv m ((h[c := ArrayIt xs] @ [ArrayIt ys])[r := FlatRun m (length h # c # map fst fs)]) r
     ((length h, ys) # (c, xs) # fs)"
proof -
  from assms have r: "r < length h" "r \<notin> fst ` set fs" "r \<noteq> c"
    and c: "c < length h" "c \<notin> fst ` set fs" "\<forall>x \<in> set xs. finite_tree m x"
    and x: "finite_tree m x"
    and ok: "frames_ok m h fs"
    unfolding flat_inv_def by (auto dest: lookup_FlatRun_lt lookup_ArrayIt_lt)
  from x assms(2) have ys: "\<forall>y \<in> set ys. finite_tree m y"
    by (blast intro: finite_tree_nested)
  have fresh: "length h \<notin> fst ` set fs" by (rule frames_ok_fresh [OF ok])
  have "frames_ok m ((h[c := ArrayIt xs] @ [ArrayIt ys])[r := FlatRun m (length h # c # map fst fs)]) fs"
    by (intro frames_ok_update frames_ok_append ok c r)
  with r c ys fresh show ?thesis
    unfolding flat_inv_def by (simp add: lookup_update lookup_append)
qed

lemma pending_Nil [simp]: "pending m [] = []"
  by (simp add: pending_def)

lemma pending_pop [simp]: "pending m ((c, []) # fs) = pending m fs"
  by (simp add: pending_def)

lemma pending_Cons: "pending m ((c, x # xs) # fs) = leaves m x @ pending m ((c, xs) # fs)"
  by (simp add: pending_def)

lemma pending_push:
  "nested m x = Some ys \<Longrightarrow> pending m ((c', ys) # (c, xs) # fs) = pending m ((c, x # xs) # fs)"
  by (simp add: pending_def leaves_nested [of m x])

lemma flat_yields: "flat_inv m h r fs \<Longrightarrow> \<exists>h'. yields h r (pending m fs) h'"
proof (induction "weight fs" arbitrary: fs h rule: less_induct)
  case less
  show ?case
  proof (cases fs)
    case Nil
    with less.prems have "lookup h r = FlatRun m []" by (simp add: flat_inv_def)
    from yields_done [OF next_FlatRun_Nil [OF this, of 0]] show ?thesis
      unfolding Nil by (auto simp: finished_def)
  next
    case (Cons p fs')
    obtain c xs where p: "p = (c, xs)" by (cases p)
    note fs = Cons [unfolded p]
    from less.prems have top: "lookup h r = FlatRun m (c # map fst fs')" "lookup h c = ArrayIt xs"
      and fin: "\<forall>x \<in> set xs. finite_tree m x"
      unfolding fs flat_inv_def by auto
    show ?thesis
    proof (cases xs)
      case Nil
      let ?h1 = "h[r := FlatRun m (map fst fs')]"
      from less.prems have inv: "flat_inv m ?h1 r fs'" unfolding fs Nil by (rule inv_pop)
      have "weight fs' < weight fs" unfolding fs by (simp add: weight_def)
      from less.hyps [OF this inv] obtain h' where y: "yields ?h1 r (pending m fs') h'" ..
      have "next_it (Suc n) r h = Some y" if "next_it n r ?h1 = Some y" for n y
      proof -
        from that obtain k where k: "n = Suc k" by (cases n) auto
        from next_FlatRun_pop [OF top(1) top(2) [unfolded Nil], of k] that show ?thesis
          unfolding k by simp
      qed
      from yields_silent [OF this y] show ?thesis unfolding fs Nil by auto
    next
      case (Cons x xs')
      let ?h1 = "h[c := ArrayIt xs']"
      from fin have x: "finite_tree m x" unfolding Cons by simp
      show ?thesis
      proof (cases "nested m x")
        case None
        let ?h3 = "h[c := ArrayIt xs', r := FlatRun m (c # map fst fs')]"
        from less.prems have inv: "flat_inv m ?h3 r ((c, xs') # fs')" unfolding fs Cons by (rule inv_leaf)
        have "weight ((c, xs') # fs') < weight fs"
          unfolding fs Cons using tsize_pos [of x] by (simp add: weight_def)
        from less.hyps [OF this inv] obtain h' where y: "yields ?h3 r (pending m ((c, xs') # fs')) h'" ..
        have d: "descend m x ?h1 = Inr None" using descend_tree [OF x] None by simp
        have "next_it (Suc (Suc 0)) r h = Some (Inr (IterResult False x), ?h3)"
          by (rule next_FlatRun_leaf [OF top(1) top(2) [unfolded Cons] d])
        from yields_step [OF this _ y] have "yields h r (x # pending m ((c, xs') # fs')) h'" by simp
        moreover have "pending m fs = x # pending m ((c, xs') # fs')"
          unfolding fs Cons pending_Cons using None by (simp add: leaves_nested [of m x])
        ultimately show ?thesis by auto
      next
        case (Some ys)
        let ?fs2 = "(length h, ys) # (c, xs') # fs'"
        let ?h3 = "(?h1 @ [ArrayIt ys])[r := FlatRun m (length h # c # map fst fs')]"
        from less.prems Some have inv: "flat_inv m ?h3 r ?fs2" unfolding fs Cons by (rule inv_push)
        have "weight ?fs2 < weight fs"
          unfolding fs Cons by (simp add: weight_def tsize_nested [OF Some])
        from less.hyps [OF this inv] obtain h' where y: "yields ?h3 r (pending m ?fs2) h'" ..
        have d: "descend m x ?h1 = Inr (Some (length h, ?h1 @ [ArrayIt ys]))"
          using descend_tree [OF x, of ?h1] Some by simp
        have "next_it (Suc n) r h = Some y" if "next_it n r ?h3 = Some y" for n y
        proof -
          from that obtain k where k: "n = Suc k" by (cases n) auto
          from next_FlatRun_push [OF top(1) top(2) [unfolded Cons] d, of k] that show ?thesis
            unfolding k by simp
        qed
        from yields_silent [OF this y] have "yields h r (pending m ?fs2) h'" .
        then show ?thesis unfolding fs Cons pending_push [OF Some] by auto
      qed
    qed
  qed
qed

lemma isIterable_JFun [simp]:
  "isIterable (JFun f) = Inr False" "isAsyncIterable (JFun f) = Inr False"
  by (simp_all add: isIterable_def isAsyncIterable_def)

lemma new_stage_sync:
  "new_stage (FluentIterable a) body s =
     (Inr (FluentIterable (JGen (length (heap s)))),
      s\<lparr>funs := funs s @ [GeneratorFn Sync (body Sync a)],
        heap := heap s @ [body Sync a],
        calls := calls s @ [length (funs s)]\<rparr>)"
  by (simp add: new_function_def new_FluentIterable_def)

lemma new_stage_async:
  "new_stage (FluentAsyncIterable a) body s =
     (Inr (FluentAsyncIterable (JAsyncGen (length (heap s)))),
      s\<lparr>funs := funs s @ [GeneratorFn Async (body Async a)],
        heap := heap s @ [body Async a],
        calls := calls s @ [length (funs s)]\<rparr>)"
  by (simp add: new_function_def new_FluentAsyncIterable_def)

lemma toArray_JGen: "toArray n (FluentIterable (JGen g)) s = on_heap (drain n g (heap s)) s"
  by (simp add: Array_from_def)

lemma toArray_JAsyncGen: "toArray n (FluentAsyncIterable (JAsyncGen g)) s = on_heap (drain n g (heap s)) s"
  by simp

lemma yields_toArray:
  assumes "yields (heap s) g vs h'"
  shows "\<exists>N. \<forall>n\<ge>N. toArray n (FluentIterable (JGen g)) s = Some (Inr vs, s\<lparr>heap := h'\<rparr>) \<and>
                    toArray n (FluentAsyncIterable (JAsyncGen g)) s = Some (Inr vs, s\<lparr>heap := h'\<rparr>)"
proof -
  from yields_drain [OF assms] obtain N where "\<forall>n\<ge>N. drain n g (heap s) = Some (Inr vs, h')" ..
  then have "\<forall>n\<ge>N. toArray n (FluentIterable (JGen g)) s = Some (Inr vs, s\<lparr>heap := h'\<rparr>) \<and>
                    toArray n (FluentAsyncIterable (JAsyncGen g)) s = Some (Inr vs, s\<lparr>heap := h'\<rparr>)"
    by (simp add: toArray_JGen toArray_JAsyncGen on_heap_def del: toArray.simps)
  then show ?thesis ..
qed

lemma next_FlatG:
  "lookup h r = FlatG m a \<Longrightarrow> method_iterator m a h = (Inr c, h1) \<Longrightarrow>
   next_it (Suc n) r h = next_it n r (h1[r := FlatRun m [c]])"
  by (simp add: next_it.simps(2)[of n r h])

lemma flat_start:
  assumes r: "lookup h r = FlatG m a"
    and a: "method_iterator m a h = (Inr (length h), h @ [ArrayIt xs])"
    and fin: "\<forall>x \<in> set xs. finite_tree m x"
  shows "\<exists>h'. yields h r (concat (map (leaves m) xs)) h'"
proof -
  let ?h1 = "(h @ [ArrayIt xs])[r := FlatRun m [length h]]"
  from r have lt: "r < length h" by (auto intro: lookup_lt)
  then have "flat_inv m ?h1 r [(length h, xs)]"
    using fin by (simp add: flat_inv_def lookup_update lookup_append)
  from flat_yields [OF this] obtain h' where "yields ?h1 r (pending m [(length h, xs)]) h'" ..
  then have y: "yields ?h1 r (concat (map (leaves m) xs)) h'" by (simp add: pending_def)
  have "next_it (Suc n) r h = Some y" if "next_it n r ?h1 = Some y" for n y
    using next_FlatG [OF r a, of n] that by simp
  from yields_silent [OF this y] show ?thesis ..
qed

lemma flat_toArray:
  assumes "\<forall>x \<in> set xs. finite_tree m x"
    and "this = (case m of Sync \<Rightarrow> FluentIterable a | Async \<Rightarrow> FluentAsyncIterable a)"
    and "\<And>h. method_iterator m a h = (Inr (length h), h @ [ArrayIt xs])"
  shows "\<exists>w s1. flat this s = (Inr w, s1) \<and>
           (\<exists>N s2. \<forall>n\<ge>N. toArray n w s1 = Some (Inr (concat (map (leaves m) xs)), s2))"
proof -
  let ?h = "heap s @ [FlatG m a]"
  have "\<exists>h'. yields ?h (length (heap s)) (concat (map (leaves m) xs)) h'"
    by (rule flat_start [OF _ assms(3) assms(1)]) simp
  then obtain h' where y: "yields ?h (length (heap s)) (concat (map (leaves m) xs)) h'" ..
  show ?thesis
  proof (cases m)
    case Sync
    let ?s1 = "s\<lparr>funs := funs s @ [GeneratorFn Sync (FlatG Sync a)], heap := heap s @ [FlatG Sync a],
                  calls := calls s @ [length (funs s)]\<rparr>"
    from y Sync have "yields (heap ?s1) (length (heap s)) (concat (map (leaves m) xs)) h'" by simp
    from yields_toArray [OF this] obtain N where
      "\<forall>n\<ge>N. toArray n (FluentIterable (JGen (length (heap s)))) ?s1
          = Some (Inr (concat (map (leaves m) xs)), ?s1\<lparr>heap := h'\<rparr>)" by blast
    moreover have "flat this s = (Inr (FluentIterable (JGen (length (heap s)))), ?s1)"
      unfolding assms(2) Sync flat_def by (simp add: new_stage_sync del: new_stage.simps)
    ultimately show ?thesis by blast
  next
    case Async
    let ?s1 = "s\<lparr>funs := funs s @ [GeneratorFn Async (FlatG Async a)], heap := heap s @ [FlatG Async a],
                  calls := calls s @ [length (funs s)]\<rparr>"
    from y Async have "yields (heap ?s1) (length (heap s)) (concat (map (leaves m) xs)) h'" by simp
    from yields_toArray [OF this] obtain N where
      "\<forall>n\<ge>N. toArray n (FluentAsyncIterable (JAsyncGen (length (heap s)))) ?s1
          = Some (Inr (concat (map (leaves m) xs)), ?s1\<lparr>heap := h'\<rparr>)" by blast
    moreover have "flat this s = (Inr (FluentAsyncIterable (JAsyncGen (length (heap s)))), ?s1)"
      unfolding assms(2) Async flat_def by (simp add: new_stage_async del: new_stage.simps)
    ultimately show ?thesis by blast
  qed
qed

lemma flat_toArray_sync:
  assumes "\<forall>x \<in> set xs. finite_tree Sync x"
  shows "\<exists>w s1. flat (FluentIterable (JArr xs)) s = (Inr w, s1) \<and>
           (\<exists>N s2. \<forall>n\<ge>N. toArray n w s1 = Some (Inr (concat (map (leaves Sync) xs)), s2))"
  by (rule flat_toArray [where m = Sync and a = "JArr xs", OF assms]) simp_all

lemma flat_toArray_async:
  assumes "\<forall>x \<in> set xs. finite_tree Async x"
  shows "\<exists>w s1. flat (FluentAsyncIterable (JAsyncIter xs)) s = (Inr w, s1) \<and>
           (\<exists>N s2. \<forall>n\<ge>N. toArray n w s1 = Some (Inr (concat (map (leaves Async) xs)), s2))"
  by (rule flat_toArray [where m = Async and a = "JAsyncIter xs", OF assms]) simp_all

lemma leaves_refused:
  "finite_tree m x \<Longrightarrow> v \<in> set (leaves m x) \<Longrightarrow>
   isIterable v = Inr False \<and> (m = Async \<longrightarrow> isAsyncIterable v = Inr False)"
  by (induction m x rule: leaves.induct)
     (auto simp: isIterable_def isAsyncIterable_def split: mode.splits)

section \<open>The classifier\<close>

text \<open>
  C2 (as amended). \<open>isIterable\<close> and \<open>isAsyncIterable\<close> never throw: on every value they
  return a boolean, which is true exactly when the value is truthy and its member is a
  function. For \<open>isAsyncIterable\<close> truthy can be read as "neither null nor undefined";
  for \<open>isIterable\<close> the empty string has to be excluded as well.
\<close>

theorem classifier_truthy_and_callable:
  "isIterable x = Inr (truthy x \<and> typeof_iterator x = Inr ''function'') \<and>
   isAsyncIterable x = Inr (truthy x \<and> typeof_asyncIterator x = Inr ''function'') \<and>
   (isIterable x = Inr True \<longleftrightarrow>
      x \<noteq> Undefined \<and> x \<noteq> Null \<and> x \<noteq> JStr [] \<and> typeof_iterator x = Inr ''function'') \<and>
   (isAsyncIterable x = Inr True \<longleftrightarrow>
      x \<noteq> Undefined \<and> x \<noteq> Null \<and> typeof_asyncIterator x = Inr ''function'')"
  by (cases x) (simp_all add: isIterable_def isAsyncIterable_def)

text \<open>
  C2 as stated fails at the empty string: it is neither null nor undefined and has a
  callable \<open>Symbol.iterator\<close> member, yet \<open>Boolean('')\<close> is false and \<open>isIterable\<close>
  answers false.
\<close>

theorem classifier_empty_string_counterexample:
  "isIterable (JStr []) = Inr False \<and> JStr [] \<noteq> Undefined \<and> JStr [] \<noteq> Null \<and>
   typeof_iterator (JStr []) = Inr ''function''"
  by (simp add: isIterable_def)

section \<open>Construction\<close>

lemma on_heap_calls: "on_heap res s = Some (x, s') \<Longrightarrow> calls s' = calls s \<and> funs s' = funs s"
  by (auto simp: on_heap_def split: option.splits)

text \<open>
  C3 (as amended). An input with the capability is stored as it is and nothing is called.
  A function is called once (one entry more in \<open>calls\<close>) and what it returns is stored:
  the value of a supplier, the new generator object of a generator function. Any other
  input is refused with the TypeError "input is not an iterable" (FluentIterable) or
  "input is not an async iterable" (FluentAsyncIterable). The terminal methods call no
  function of the store.
\<close>

theorem constructor_classifies_once:
  "(isIterable a = Inr True \<longrightarrow> new_FluentIterable a s = (Inr (FluentIterable a), s)) \<and>
   (isAsyncIterable b = Inr True \<longrightarrow> new_FluentAsyncIterable b s = (Inr (FluentAsyncIterable b), s)) \<and>
   (f < length (funs s) \<and> funs s ! f = Supplier v \<longrightarrow>
      new_FluentIterable (JFun f) s = (Inr (FluentIterable v), s\<lparr>calls := calls s @ [f]\<rparr>) \<and>
      new_FluentAsyncIterable (JFun f) s = (Inr (FluentAsyncIterable v), s\<lparr>calls := calls s @ [f]\<rparr>)) \<and>
   (k < length (funs s) \<and> funs s ! k = GeneratorFn m g \<longrightarrow>
      new_FluentIterable (JFun k) s =
        (Inr (FluentIterable ((case m of Sync \<Rightarrow> JGen | Async \<Rightarrow> JAsyncGen) (length (heap s)))),
         s\<lparr>heap := heap s @ [g], calls := calls s @ [k]\<rparr>) \<and>
      new_FluentAsyncIterable (JFun k) s =
        (Inr (FluentAsyncIterable ((case m of Sync \<Rightarrow> JGen | Async \<Rightarrow> JAsyncGen) (length (heap s)))),
         s\<lparr>heap := heap s @ [g], calls := calls s @ [k]\<rparr>)) \<and>
   (isIterable x = Inr False \<and> typeof x \<noteq> ''function'' \<longrightarrow>
      new_FluentIterable x s = (Inl (TypeError ''input is not an iterable''), s)) \<and>
   (isAsyncIterable y = Inr False \<and> typeof y \<noteq> ''function'' \<longrightarrow>
      new_FluentAsyncIterable y s = (Inl (TypeError ''input is not an async iterable''), s)) \<and>
   (toArray n w s = Some (r, s') \<longrightarrow> calls s' = calls s \<and> funs s' = funs s) \<and>
   (all n p w s = Some (r', s') \<longrightarrow> calls s' = calls s \<and> funs s' = funs s) \<and>
   (any n p w s = Some (r', s') \<longrightarrow> calls s' = calls s \<and> funs s' = funs s)"
proof -
  have trav: "toArray n w s = Some (r, s') \<longrightarrow> calls s' = calls s \<and> funs s' = funs s"
    by (cases w) (auto dest: on_heap_calls)
  then show ?thesis
    by (auto simp: new_FluentIterable_def new_FluentAsyncIterable_def all_def any_def
             dest: on_heap_calls split: mode.splits)
qed

theorem constructor_classifies_once_witness:
  "isIterable (JArr [JNum 1]) = Inr True \<and>
   new_FluentIterable (JArr [JNum 1]) \<lparr>heap = [], funs = [Supplier (JArr []), GeneratorFn Sync (YieldG [])], calls = []\<rparr>
     = (Inr (FluentIterable (JArr [JNum 1])),
        \<lparr>heap = [], funs = [Supplier (JArr []), GeneratorFn Sync (YieldG [])], calls = []\<rparr>) \<and>
   isAsyncIterable (JAsyncIter [JNum 1]) = Inr True \<and>
   new_FluentAsyncIterable (JAsyncIter [JNum 1]) \<lparr>heap = [], funs = [Supplier (JArr []), GeneratorFn Sync (YieldG [])], calls = []\<rparr>
     = (Inr (FluentAsyncIterable (JAsyncIter [JNum 1])),
        \<lparr>heap = [], funs = [Supplier (JArr []), GeneratorFn Sync (YieldG [])], calls = []\<rparr>) \<and>
   new_FluentIterable (JFun 0) \<lparr>heap = [], funs = [Supplier (JArr []), GeneratorFn Sync (YieldG [])], calls = []\<rparr>
     = (Inr (FluentIterable (JArr [])),
        \<lparr>heap = [], funs = [Supplier (JArr []), GeneratorFn Sync (YieldG [])], calls = [0]\<rparr>) \<and>
   new_FluentIterable (JFun 1) \<lparr>heap = [], funs = [Supplier (JArr []), GeneratorFn Sync (YieldG [])], calls = []\<rparr>
     = (Inr (FluentIterable (JGen 0)),
        \<lparr>heap = [YieldG []], funs = [Supplier (JArr []), GeneratorFn Sync (YieldG [])], calls = [1]\<rparr>) \<and>
   isIterable (JNum 5) = Inr False \<and> typeof (JNum 5) \<noteq> ''function'' \<and>
   new_FluentIterable (JNum 5) \<lparr>heap = [], funs = [Supplier (JArr []), GeneratorFn Sync (YieldG [])], calls = []\<rparr>
     = (Inl (TypeError ''input is not an iterable''),
        \<lparr>heap = [], funs = [Supplier (JArr []), GeneratorFn Sync (YieldG [])], calls = []\<rparr>) \<and>
   isAsyncIterable (JArr []) = Inr False \<and> typeof (JArr []) \<noteq> ''function'' \<and>
   new_FluentAsyncIterable (JArr []) \<lparr>heap = [], funs = [Supplier (JArr []), GeneratorFn Sync (YieldG [])], calls = []\<rparr>
     = (Inl (TypeError ''input is not an async iterable''),
        \<lparr>heap = [], funs = [Supplier (JArr []), GeneratorFn Sync (YieldG [])], calls = []\<rparr>) \<and>
   toArray 3 (FluentIterable (JArr [JNum 1])) \<lparr>heap = [], funs = [Supplier (JArr [])], calls = [0]\<rparr>
     = Some (Inr [JNum 1], \<lparr>heap = [ArrayIt []], funs = [Supplier (JArr [])], calls = [0]\<rparr>) \<and>
   all 3 (\<lambda>v. True) (FluentIterable (JArr [JNum 1])) \<lparr>heap = [], funs = [Supplier (JArr [])], calls = [0]\<rparr>
     = Some (Inr True, \<lparr>heap = [ArrayIt []], funs = [Supplier (JArr [])], calls = [0]\<rparr>) \<and>
   any 3 (\<lambda>v. False) (FluentIterable (JArr [JNum 1])) \<lparr>heap = [], funs = [Supplier (JArr [])], calls = [0]\<rparr>
     = Some (Inr False, \<lparr>heap = [ArrayIt []], funs = [Supplier (JArr [])], calls = [0]\<rparr>) \<and>
   calls \<lparr>heap = [ArrayIt []], funs = [Supplier (JArr [])], calls = [0]\<rparr>
     = calls \<lparr>heap = [], funs = [Supplier (JArr [])], calls = [0::nat]\<rparr>"
proof -
  let ?t = "\<lparr>heap = [], funs = [Supplier (JArr [])], calls = [0]\<rparr>"
  let ?t' = "\<lparr>heap = [ArrayIt []], funs = [Supplier (JArr [])], calls = [0]\<rparr>"
  have e1: "toArray 3 (FluentIterable (JArr [JNum 1])) ?t = Some (Inr [JNum 1], ?t')"
    by (simp add: Array_from_def on_heap_def eval_nat_numeral next_it.simps(2) lookup_def finished_def)
  have e2: "all 3 (\<lambda>v. True) (FluentIterable (JArr [JNum 1])) ?t = Some (Inr True, ?t')"
    by (simp add: all_def mode_of_def on_heap_def eval_nat_numeral next_it.simps(2) lookup_def finished_def)
  have e3: "any 3 (\<lambda>v. False) (FluentIterable (JArr [JNum 1])) ?t = Some (Inr False, ?t')"
    by (simp add: any_def mode_of_def on_heap_def eval_nat_numeral next_it.simps(2) lookup_def finished_def)
  from e1 e2 e3
    constructor_classifies_once [of "JArr [JNum 1]"
      "\<lparr>heap = [], funs = [Supplier (JArr []), GeneratorFn Sync (YieldG [])], calls = []\<rparr>"
      "JAsyncIter [JNum 1]" 0 "JArr []" 1 Sync "YieldG []" "JNum 5" "JArr []"]
    constructor_classifies_once [where n = 3 and w = "FluentIterable (JArr [JNum 1])"
      and s = ?t and r = "Inr [JNum 1]" and p = "\<lambda>v. True" and r' = "Inr True" and s' = ?t']
    constructor_classifies_once [where n = 3 and w = "FluentIterable (JArr [JNum 1])"
      and s = ?t and p = "\<lambda>v. False" and r' = "Inr False" and s' = ?t']
  show ?thesis
    by (simp add: isIterable_def isAsyncIterable_def)
qed

text \<open>
  C3 as stated fails on the message: the error raised for an input that is neither
  enumerable nor callable does not carry the text "input is not an enumerable of the
  expected capability".
\<close>

theorem constructor_message_counterexample:
  "new_FluentIterable (JNum 5) empty_state = (Inl (TypeError ''input is not an iterable''), empty_state) \<and>
   new_FluentAsyncIterable (JNum 5) empty_state
     = (Inl (TypeError ''input is not an async iterable''), empty_state) \<and>
   TypeError ''input is not an iterable'' \<noteq> TypeError ''input is not an enumerable of the expected capability'' \<and>
   TypeError ''input is not an async iterable'' \<noteq> TypeError ''input is not an enumerable of the expected capability''"
  by (simp add: new_FluentIterable_def new_FluentAsyncIterable_def isIterable_def isAsyncIterable_def)

section \<open>Flattening\<close>

lemma leaves_list_refused:
  "\<forall>x \<in> set xs. finite_tree m x \<Longrightarrow> v \<in> set (concat (map (leaves m) xs)) \<Longrightarrow>
   isIterable v = Inr False \<and> (m = Async \<longrightarrow> isAsyncIterable v = Inr False)"
  by (auto dest: leaves_refused)

text \<open>
  C4. On an array (sync) or an async sequence (async) whose elements are finitely nested,
  \<open>flat()\<close> followed by \<open>toArray()\<close> returns, for every bound that is large enough,
  the leaves in depth-first order; each of them is a value the classifier refuses, so no
  sequence is emitted as a unit. The loop is the one of the source, on its stack of
  cursors. On \<open>[1, [2, [3, 4]], 7]\<close> the result is \<open>[1, 2, 3, 4, 7]\<close>.
\<close>

theorem flat_emits_leaves_depth_first:
  "((\<forall>x \<in> set xs. finite_tree Sync x) \<longrightarrow>
      (\<exists>w s1. flat (FluentIterable (JArr xs)) s = (Inr w, s1) \<and>
         (\<exists>N s2. \<forall>n\<ge>N. toArray n w s1 = Some (Inr (concat (map (leaves Sync) xs)), s2))) \<and>
      (\<forall>v \<in> set (concat (map (leaves Sync) xs)). isIterable v = Inr False)) \<and>
   ((\<forall>y \<in> set ys. finite_tree Async y) \<longrightarrow>
      (\<exists>w s1. flat (FluentAsyncIterable (JAsyncIter ys)) s = (Inr w, s1) \<and>
         (\<exists>N s2. \<forall>n\<ge>N. toArray n w s1 = Some (Inr (concat (map (leaves Async) ys)), s2))) \<and>
      (\<forall>v \<in> set (concat (map (leaves Async) ys)).
          isAsyncIterable v = Inr False \<and> isIterable v = Inr False))"
proof (intro conjI impI)
  assume "\<forall>x \<in> set xs. finite_tree Sync x"
  then show "\<exists>w s1. flat (FluentIterable (JArr xs)) s = (Inr w, s1) \<and>
         (\<exists>N s2. \<forall>n\<ge>N. toArray n w s1 = Some (Inr (concat (map (leaves Sync) xs)), s2))"
    by (rule flat_toArray_sync)
next
  assume "\<forall>x \<in> set xs. finite_tree Sync x"
  then show "\<forall>v \<in> set (concat (map (leaves Sync) xs)). isIterable v = Inr False"
    using leaves_list_refused [of xs Sync] by blast
next
  assume "\<forall>y \<in> set ys. finite_tree Async y"
  then show "\<exists>w s1. flat (FluentAsyncIterable (JAsyncIter ys)) s = (Inr w, s1) \<and>
         (\<exists>N s2. \<forall>n\<ge>N. toArray n w s1 = Some (Inr (concat (map (leaves Async) ys)), s2))"
    by (rule flat_toArray_async)
next
  assume "\<forall>y \<in> set ys. finite_tree Async y"
  then show "\<forall>v \<in> set (concat (map (leaves Async) ys)).
          isAsyncIterable v = Inr False \<and> isIterable v = Inr False"
    using leaves_list_refused [of ys Async] by blast
qed

theorem flat_emits_leaves_depth_first_witness:
  "(\<exists>w s1. flat (FluentIterable (JArr [JNum 1, JArr [JNum 2, JArr [JNum 3, JNum 4]], JNum 7])) empty_state
              = (Inr w, s1) \<and>
      (\<exists>N s2. \<forall>n\<ge>N. toArray n w s1 = Some (Inr [JNum 1, JNum 2, JNum 3, JNum 4, JNum 7], s2))) \<and>
   (\<exists>w s1. flat (FluentAsyncIterable (JAsyncIter [JNum 1, JIter [JNum 2, JAsyncIter [JNum 3, JNum 4]], JNum 7]))
              empty_state = (Inr w, s1) \<and>
      (\<exists>N s2. \<forall>n\<ge>N. toArray n w s1 = Some (Inr [JNum 1, JNum 2, JNum 3, JNum 4, JNum 7], s2)))"
  using flat_emits_leaves_depth_first
          [of "[JNum 1, JArr [JNum 2, JArr [JNum 3, JNum 4]], JNum 7]"
              empty_state
              "[JNum 1, JIter [JNum 2, JAsyncIter [JNum 3, JNum 4]], JNum 7]"]
  by simp

text \<open>The same run, computed: a bound of 9 is enough.\<close>

lemma flat_example_run:
  "map_option fst (case flat (FluentIterable (JArr [JNum 1, JArr [JNum 2, JArr [JNum 3, JNum 4]], JNum 7])) empty_state of
      (Inr w, s1) \<Rightarrow> toArray 9 w s1 | (Inl e, s1) \<Rightarrow> None)
   = Some (Inr [JNum 1, JNum 2, JNum 3, JNum 4, JNum 7])"
  by code_simp

lemma leaves_list_append:
  "concat (map (leaves m) (pre @ x # post))
     = concat (map (leaves m) pre) @ leaves m x @ concat (map (leaves m) post)"
  by simp

text \<open>
  C6. The async body descends into a sequence of either capability: an array nested in
  an async sequence is replaced by its own leaves, and so is a nested async sequence. The
  sync body descends into sync sequences only: an async sequence (or an async generator
  object) nested in an array is emitted as it is.
\<close>

theorem flat_capabilities_asymmetric:
  "((\<forall>x \<in> set (pre @ ys @ post). finite_tree Async x) \<longrightarrow>
      (\<exists>w s1. flat (FluentAsyncIterable (JAsyncIter (pre @ JArr ys # post))) s = (Inr w, s1) \<and>
         (\<exists>N s2. \<forall>n\<ge>N. toArray n w s1 =
            Some (Inr (concat (map (leaves Async) pre) @ concat (map (leaves Async) ys)
                       @ concat (map (leaves Async) post)), s2)))) \<and>
   ((\<forall>x \<in> set (pre' @ post'). finite_tree Sync x) \<longrightarrow>
      (\<exists>w s1. flat (FluentIterable (JArr (pre' @ JAsyncIter zs # post'))) s = (Inr w, s1) \<and>
         (\<exists>N s2. \<forall>n\<ge>N. toArray n w s1 =
            Some (Inr (concat (map (leaves Sync) pre') @ JAsyncIter zs # concat (map (leaves Sync) post')), s2))) \<and>
      (\<exists>w s1. flat (FluentIterable (JArr (pre' @ JAsyncGen g # post'))) s = (Inr w, s1) \<and>
         (\<exists>N s2. \<forall>n\<ge>N. toArray n w s1 =
            Some (Inr (concat (map (leaves Sync) pre') @ JAsyncGen g # concat (map (leaves Sync) post')), s2)))) \<and>
   descend Async (JArr ys) h = Inr (Some (length h, h @ [ArrayIt ys])) \<and>
   descend Async (JAsyncIter ys) h = Inr (Some (length h, h @ [ArrayIt ys])) \<and>
   descend Sync (JArr ys) h = Inr (Some (length h, h @ [ArrayIt ys])) \<and>
   descend Sync (JAsyncIter zs) h = Inr None \<and>
   descend Sync (JAsyncGen g) h = Inr None"
proof (intro conjI impI)
  assume a: "\<forall>x \<in> set (pre @ ys @ post). finite_tree Async x"
  then have "\<forall>x \<in> set (pre @ JArr ys # post). finite_tree Async x" by auto
  from flat_toArray_async [OF this, of s]
  show "\<exists>w s1. flat (FluentAsyncIterable (JAsyncIter (pre @ JArr ys # post))) s = (Inr w, s1) \<and>
         (\<exists>N s2. \<forall>n\<ge>N. toArray n w s1 =
            Some (Inr (concat (map (leaves Async) pre) @ concat (map (leaves Async) ys)
                       @ concat (map (leaves Async) post)), s2))"
    unfolding leaves_list_append by simp
next
  assume a: "\<forall>x \<in> set (pre' @ post'). finite_tree Sync x"
  then have "\<forall>x \<in> set (pre' @ JAsyncIter zs # post'). finite_tree Sync x" by auto
  from flat_toArray_sync [OF this, of s]
  show "\<exists>w s1. flat (FluentIterable (JArr (pre' @ JAsyncIter zs # post'))) s = (Inr w, s1) \<and>
         (\<exists>N s2. \<forall>n\<ge>N. toArray n w s1 =
            Some (Inr (concat (map (leaves Sync) pre') @ JAsyncIter zs # concat (map (leaves Sync) post')), s2))"
    unfolding leaves_list_append by simp
next
  assume a: "\<forall>x \<in> set (pre' @ post'). finite_tree Sync x"
  then have "\<forall>x \<in> set (pre' @ JAsyncGen g # post'). finite_tree Sync x" by auto
  from flat_toArray_sync [OF this, of s]
  show "\<exists>w s1. flat (FluentIterable (JArr (pre' @ JAsyncGen g # post'))) s = (Inr w, s1) \<and>
         (\<exists>N s2. \<forall>n\<ge>N. toArray n w s1 =
            Some (Inr (concat (map (leaves Sync) pre') @ JAsyncGen g # concat (map (leaves Sync) post')), s2))"
    unfolding leaves_list_append by simp
qed (simp_all add: isIterable_def isAsyncIterable_def)

theorem flat_capabilities_asymmetric_witness:
  "(\<exists>w s1. flat (FluentAsyncIterable (JAsyncIter [JNum 1, JArr [JNum 2, JNum 3], JNum 4])) empty_state = (Inr w, s1) \<and>
      (\<exists>N s2. \<forall>n\<ge>N. toArray n w s1 = Some (Inr [JNum 1, JNum 2, JNum 3, JNum 4], s2))) \<and>
   (\<exists>w s1. flat (FluentIterable (JArr [JNum 1, JAsyncIter [JNum 2, JNum 3], JNum 4])) empty_state = (Inr w, s1) \<and>
      (\<exists>N s2. \<forall>n\<ge>N. toArray n w s1 = Some (Inr [JNum 1, JAsyncIter [JNum 2, JNum 3], JNum 4], s2)))"
  using flat_capabilities_asymmetric
          [of "[JNum 1]" "[JNum 2, JNum 3]" "[JNum 4]" empty_state "[JNum 1]" "[JNum 4]" "[JNum 2, JNum 3]"]
  by simp

lemma flat_mixed_example_run:
  "map_option fst (case flat (FluentAsyncIterable (JAsyncIter [JNum 1, JArr [JNum 2, JNum 3], JNum 4])) empty_state of
      (Inr w, s1) \<Rightarrow> toArray 9 w s1 | (Inl e, s1) \<Rightarrow> None)
   = Some (Inr [JNum 1, JNum 2, JNum 3, JNum 4]) \<and>
   map_option fst (case flat (FluentIterable (JArr [JNum 1, JAsyncIter [JNum 2, JNum 3], JNum 4])) empty_state of
      (Inr w, s1) \<Rightarrow> toArray 9 w s1 | (Inl e, s1) \<Rightarrow> None)
   = Some (Inr [JNum 1, JAsyncIter [JNum 2, JNum 3], JNum 4])"
  by code_simp

section \<open>Materialising\<close>

lemma wraps_loop_iterator:
  "wraps w xs \<Longrightarrow> loop_iterator (mode_of w) (input w) h = (Inr (length h), h @ [ArrayIt xs])"
  by (auto simp: wraps_def mode_of_def)

lemma wraps_method_iterator:
  "wraps w xs \<Longrightarrow> method_iterator (mode_of w) (input w) h = (Inr (length h), h @ [ArrayIt xs])"
  by (auto simp: wraps_def mode_of_def)

lemma toArray_sync_yields:
  assumes "typeof_iterator a = Inr ''function''" and "call_iterator a (heap s) = (Inr c, h1)"
    and "yields h1 c vs h'"
  shows "\<exists>N. \<forall>n\<ge>N. toArray n (FluentIterable a) s = Some (Inr vs, s\<lparr>heap := h'\<rparr>)"
proof -
  from yields_drain [OF assms(3)] obtain N where "\<forall>n\<ge>N. drain n c h1 = Some (Inr vs, h')" ..
  then have "\<forall>n\<ge>N. toArray n (FluentIterable a) s = Some (Inr vs, s\<lparr>heap := h'\<rparr>)"
    using assms(1,2) by (simp add: Array_from_def on_heap_def)
  then show ?thesis ..
qed

lemma toArray_async_yields:
  assumes "loop_iterator Async a (heap s) = (Inr c, h1)" and "yields h1 c vs h'"
  shows "\<exists>N. \<forall>n\<ge>N. toArray n (FluentAsyncIterable a) s = Some (Inr vs, s\<lparr>heap := h'\<rparr>)"
proof -
  from yields_drain [OF assms(2)] obtain N where "\<forall>n\<ge>N. drain n c h1 = Some (Inr vs, h')" ..
  then have "\<forall>n\<ge>N. toArray n (FluentAsyncIterable a) s = Some (Inr vs, s\<lparr>heap := h'\<rparr>)"
    using assms(1) by (simp add: on_heap_def)
  then show ?thesis ..
qed

lemma toArray_wraps:
  assumes "wraps w xs"
  shows "\<exists>N. \<forall>n\<ge>N. toArray n w s = Some (Inr xs, s\<lparr>heap := heap s @ [ArrayIt []]\<rparr>)"
proof -
  have y: "yields (heap s @ [ArrayIt xs]) (length (heap s)) xs (heap s @ [ArrayIt []])"
    using yields_array [of "heap s @ [ArrayIt xs]" "length (heap s)" xs] by simp
  from assms consider "w = FluentIterable (JArr xs)" | "w = FluentIterable (JIter xs)"
    | "w = FluentAsyncIterable (JAsyncIter xs)" unfolding wraps_def by blast
  then show ?thesis
  proof cases
    case 1
    show ?thesis unfolding 1 by (rule toArray_sync_yields [OF _ _ y]) simp_all
  next
    case 2
    show ?thesis unfolding 2 by (rule toArray_sync_yields [OF _ _ y]) simp_all
  next
    case 3
    show ?thesis unfolding 3 by (rule toArray_async_yields [OF _ y]) simp
  qed
qed

lemma new_wraps:
  "new_FluentIterable (JArr xs) s = (Inr (FluentIterable (JArr xs)), s)"
  "new_FluentIterable (JIter xs) s = (Inr (FluentIterable (JIter xs)), s)"
  "new_FluentAsyncIterable (JAsyncIter xs) s = (Inr (FluentAsyncIterable (JAsyncIter xs)), s)"
  by (simp_all add: new_FluentIterable_def new_FluentAsyncIterable_def isIterable_def isAsyncIterable_def)

text \<open>
  C7. A wrapper built on an array, on a collection or (async) on an async sequence with
  the elements \<open>xs\<close> is built without error, and its \<open>toArray()\<close> returns \<open>xs\<close>, in
  order, for every bound that is large enough and from any store; so does the wrapper
  built on a generator function that yields \<open>xs\<close>, the form the repository's tests use.
\<close>

theorem wrap_toArray_identity:
  "new_FluentIterable (JArr xs) s = (Inr (FluentIterable (JArr xs)), s) \<and>
   (\<exists>N s'. \<forall>n\<ge>N. toArray n (FluentIterable (JArr xs)) s = Some (Inr xs, s')) \<and>
   new_FluentIterable (JIter xs) s = (Inr (FluentIterable (JIter xs)), s) \<and>
   (\<exists>N s'. \<forall>n\<ge>N. toArray n (FluentIterable (JIter xs)) s = Some (Inr xs, s')) \<and>
   new_FluentAsyncIterable (JAsyncIter xs) s = (Inr (FluentAsyncIterable (JAsyncIter xs)), s) \<and>
   (\<exists>N s'. \<forall>n\<ge>N. toArray n (FluentAsyncIterable (JAsyncIter xs)) s = Some (Inr xs, s')) \<and>
   (f < length (funs s) \<and> funs s ! f = GeneratorFn Sync (YieldG xs) \<longrightarrow>
      (\<exists>w s1. new_FluentIterable (JFun f) s = (Inr w, s1) \<and>
         (\<exists>N s'. \<forall>n\<ge>N. toArray n w s1 = Some (Inr xs, s')))) \<and>
   (g < length (funs s) \<and> funs s ! g = GeneratorFn Async (YieldG xs) \<longrightarrow>
      (\<exists>w s1. new_FluentAsyncIterable (JFun g) s = (Inr w, s1) \<and>
         (\<exists>N s'. \<forall>n\<ge>N. toArray n w s1 = Some (Inr xs, s'))))"
proof (intro conjI impI)
  show "\<exists>N s'. \<forall>n\<ge>N. toArray n (FluentIterable (JArr xs)) s = Some (Inr xs, s')"
    using toArray_wraps [of "FluentIterable (JArr xs)" xs s] by (auto simp: wraps_def simp del: toArray.simps)
  show "\<exists>N s'. \<forall>n\<ge>N. toArray n (FluentIterable (JIter xs)) s = Some (Inr xs, s')"
    using toArray_wraps [of "FluentIterable (JIter xs)" xs s] by (auto simp: wraps_def simp del: toArray.simps)
  show "\<exists>N s'. \<forall>n\<ge>N. toArray n (FluentAsyncIterable (JAsyncIter xs)) s = Some (Inr xs, s')"
    using toArray_wraps [of "FluentAsyncIterable (JAsyncIter xs)" xs s] by (auto simp: wraps_def simp del: toArray.simps)
next
  assume a: "f < length (funs s) \<and> funs s ! f = GeneratorFn Sync (YieldG xs)"
  let ?s1 = "s\<lparr>heap := heap s @ [YieldG xs], calls := calls s @ [f]\<rparr>"
  have "yields (heap ?s1) (length (heap s)) xs ((heap ?s1)[length (heap s) := Done])"
    by (rule yields_YieldG) simp
  from yields_toArray [OF this] obtain N where
    "\<forall>n\<ge>N. toArray n (FluentIterable (JGen (length (heap s)))) ?s1
        = Some (Inr xs, ?s1\<lparr>heap := (heap ?s1)[length (heap s) := Done]\<rparr>)" by blast
  moreover have "new_FluentIterable (JFun f) s = (Inr (FluentIterable (JGen (length (heap s)))), ?s1)"
    using a by (simp add: new_FluentIterable_def)
  ultimately show "\<exists>w s1. new_FluentIterable (JFun f) s = (Inr w, s1) \<and>
         (\<exists>N s'. \<forall>n\<ge>N. toArray n w s1 = Some (Inr xs, s'))" by blast
next
  assume a: "g < length (funs s) \<and> funs s ! g = GeneratorFn Async (YieldG xs)"
  let ?s1 = "s\<lparr>heap := heap s @ [YieldG xs], calls := calls s @ [g]\<rparr>"
  have "yields (heap ?s1) (length (heap s)) xs ((heap ?s1)[length (heap s) := Done])"
    by (rule yields_YieldG) simp
  from yields_toArray [OF this] obtain N where
    "\<forall>n\<ge>N. toArray n (FluentAsyncIterable (JAsyncGen (length (heap s)))) ?s1
        = Some (Inr xs, ?s1\<lparr>heap := (heap ?s1)[length (heap s) := Done]\<rparr>)" by blast
  moreover have "new_FluentAsyncIterable (JFun g) s = (Inr (FluentAsyncIterable (JAsyncGen (length (heap s)))), ?s1)"
    using a by (simp add: new_FluentAsyncIterable_def)
  ultimately show "\<exists>w s1. new_FluentAsyncIterable (JFun g) s = (Inr w, s1) \<and>
         (\<exists>N s'. \<forall>n\<ge>N. toArray n w s1 = Some (Inr xs, s'))" by blast
qed (simp_all add: new_wraps)

theorem wrap_toArray_identity_witness:
  "(\<exists>w s1. new_FluentIterable (JFun 0)
               \<lparr>heap = [], funs = [GeneratorFn Sync (YieldG [JNum 1, JNum 2, JNum 7]),
                                    GeneratorFn Async (YieldG [JNum 1, JNum 2, JNum 7])], calls = []\<rparr> = (Inr w, s1) \<and>
      (\<exists>N s'. \<forall>n\<ge>N. toArray n w s1 = Some (Inr [JNum 1, JNum 2, JNum 7], s'))) \<and>
   (\<exists>w s1. new_FluentAsyncIterable (JFun 1)
               \<lparr>heap = [], funs = [GeneratorFn Sync (YieldG [JNum 1, JNum 2, JNum 7]),
                                    GeneratorFn Async (YieldG [JNum 1, JNum 2, JNum 7])], calls = []\<rparr> = (Inr w, s1) \<and>
      (\<exists>N s'. \<forall>n\<ge>N. toArray n w s1 = Some (Inr [JNum 1, JNum 2, JNum 7], s')))"
  using wrap_toArray_identity
          [of "[JNum 1, JNum 2, JNum 7]"
              "\<lparr>heap = [], funs = [GeneratorFn Sync (YieldG [JNum 1, JNum 2, JNum 7]),
                                   GeneratorFn Async (YieldG [JNum 1, JNum 2, JNum 7])], calls = []\<rparr>" 0 1]
  by simp

text \<open>The two tests of the repository, computed: \<open>new FluentIterable(function* () { yield
  1; yield 2; yield 7; }).toArray()\<close> and its async twin give \<open>[1, 2, 7]\<close>.\<close>

lemma repository_tests:
  "map_option fst
     (case new_FluentIterable (JFun 0) \<lparr>heap = [], funs = [GeneratorFn Sync (YieldG [JNum 1, JNum 2, JNum 7])], calls = []\<rparr> of
        (Inr w, s1) \<Rightarrow> toArray 5 w s1 | (Inl e, s1) \<Rightarrow> None)
   = Some (Inr [JNum 1, JNum 2, JNum 7]) \<and>
   map_option fst
     (case new_FluentAsyncIterable (JFun 0) \<lparr>heap = [], funs = [GeneratorFn Async (YieldG [JNum 1, JNum 2, JNum 7])], calls = []\<rparr> of
        (Inr w, s1) \<Rightarrow> toArray 5 w s1 | (Inl e, s1) \<Rightarrow> None)
   = Some (Inr [JNum 1, JNum 2, JNum 7])"
  by code_simp

section \<open>Predicates\<close>

lemma close_ArrayIt: "lookup h c = ArrayIt xs \<Longrightarrow> close_it (Suc n) c h = Some h"
  by simp

lemma all_loop_array_false:
  "lookup h c = ArrayIt (ys @ x # zs) \<Longrightarrow> \<forall>y \<in> set ys. p y \<Longrightarrow> \<not> p x \<Longrightarrow> length ys + 2 \<le> n \<Longrightarrow>
   all_loop n p c h = Some (Inr False, h[c := ArrayIt zs])"
proof (induction ys arbitrary: h n)
  case Nil
  then obtain k where n: "n = Suc (Suc k)" by (cases n; cases "n - 1") auto
  from Nil have lt: "c < length h" by (auto intro: lookup_lt)
  from Nil show ?case unfolding n
    by (simp add: next_ArrayIt_Cons lookup_update lt del: close_it.simps)
       (simp add: close_ArrayIt lookup_update lt del: close_it.simps)
next
  case (Cons y ys)
  then obtain k where n: "n = Suc (Suc k)" by (cases n; cases "n - 1") auto
  from Cons.prems have lt: "c < length h" by (auto intro: lookup_lt)
  have "all_loop (Suc k) p c (h[c := ArrayIt (ys @ x # zs)]) = Some (Inr False, h[c := ArrayIt (ys @ x # zs), c := ArrayIt zs])"
    by (rule Cons.IH) (use Cons.prems lt n in \<open>simp_all add: lookup_update\<close>)
  with Cons.prems show ?case unfolding n
    by (simp add: next_ArrayIt_Cons del: all_loop.simps(2)) (simp add: next_ArrayIt_Cons)
qed

lemma all_loop_array_true:
  "lookup h c = ArrayIt xs \<Longrightarrow> \<forall>y \<in> set xs. p y \<Longrightarrow> length xs + 2 \<le> n \<Longrightarrow>
   all_loop n p c h = Some (Inr True, h[c := ArrayIt []])"
proof (induction xs arbitrary: h n)
  case Nil
  then obtain k where n: "n = Suc (Suc k)" by (cases n; cases "n - 1") auto
  from Nil show ?case unfolding n
    by (simp add: next_ArrayIt_Nil finished_def update_lookup_same)
next
  case (Cons y ys)
  then obtain k where n: "n = Suc (Suc k)" by (cases n; cases "n - 1") auto
  from Cons.prems have lt: "c < length h" by (auto intro: lookup_lt)
  have "all_loop (Suc k) p c (h[c := ArrayIt ys]) = Some (Inr True, h[c := ArrayIt ys, c := ArrayIt []])"
    by (rule Cons.IH) (use Cons.prems lt n in \<open>simp_all add: lookup_update\<close>)
  with Cons.prems show ?case unfolding n
    by (simp add: next_ArrayIt_Cons del: all_loop.simps(2)) (simp add: next_ArrayIt_Cons)
qed

lemma any_loop_array_true:
  "lookup h c = ArrayIt (ys @ x # zs) \<Longrightarrow> \<forall>y \<in> set ys. \<not> p y \<Longrightarrow> p x \<Longrightarrow> length ys + 2 \<le> n \<Longrightarrow>
   any_loop n p c h = Some (Inr True, h[c := ArrayIt zs])"
proof (induction ys arbitrary: h n)
  case Nil
  then obtain k where n: "n = Suc (Suc k)" by (cases n; cases "n - 1") auto
  from Nil have lt: "c < length h" by (auto intro: lookup_lt)
  from Nil show ?case unfolding n
    by (simp add: next_ArrayIt_Cons lookup_update lt del: close_it.simps)
       (simp add: close_ArrayIt lookup_update lt del: close_it.simps)
next
  case (Cons y ys)
  then obtain k where n: "n = Suc (Suc k)" by (cases n; cases "n - 1") auto
  from Cons.prems have lt: "c < length h" by (auto intro: lookup_lt)
  have "any_loop (Suc k) p c (h[c := ArrayIt (ys @ x # zs)]) = Some (Inr True, h[c := ArrayIt (ys @ x # zs), c := ArrayIt zs])"
    by (rule Cons.IH) (use Cons.prems lt n in \<open>simp_all add: lookup_update\<close>)
  with Cons.prems show ?case unfolding n
    by (simp add: next_ArrayIt_Cons del: any_loop.simps(2)) (simp add: next_ArrayIt_Cons)
qed

lemma any_loop_array_false:
  "lookup h c = ArrayIt xs \<Longrightarrow> \<forall>y \<in> set xs. \<not> p y \<Longrightarrow> length xs + 2 \<le> n \<Longrightarrow>
   any_loop n p c h = Some (Inr False, h[c := ArrayIt []])"
proof (induction xs arbitrary: h n)
  case Nil
  then obtain k where n: "n = Suc (Suc k)" by (cases n; cases "n - 1") auto
  from Nil show ?case unfolding n
    by (simp add: next_ArrayIt_Nil finished_def update_lookup_same)
next
  case (Cons y ys)
  then obtain k where n: "n = Suc (Suc k)" by (cases n; cases "n - 1") auto
  from Cons.prems have lt: "c < length h" by (auto intro: lookup_lt)
  have "any_loop (Suc k) p c (h[c := ArrayIt ys]) = Some (Inr False, h[c := ArrayIt ys, c := ArrayIt []])"
    by (rule Cons.IH) (use Cons.prems lt n in \<open>simp_all add: lookup_update\<close>)
  with Cons.prems show ?case unfolding n
    by (simp add: next_ArrayIt_Cons del: any_loop.simps(2)) (simp add: next_ArrayIt_Cons)
qed

lemma all_wraps:
  "wraps w xs \<Longrightarrow> all n p w s = on_heap (all_loop n p (length (heap s)) (heap s @ [ArrayIt xs])) s"
  by (simp add: all_def wraps_loop_iterator)

lemma any_wraps:
  "wraps w xs \<Longrightarrow> any n p w s = on_heap (any_loop n p (length (heap s)) (heap s @ [ArrayIt xs])) s"
  by (simp add: any_def wraps_loop_iterator)

text \<open>
  C8. On a wrapper around \<open>xs\<close>, of either class: \<open>all\<close> returns false when some element
  fails the predicate, and the cursor then stands just behind the first such element
  (\<open>zs\<close>, what follows it, was never requested); it returns true when no element fails,
  in particular on the empty sequence. \<open>any\<close> is the mirror image. \<open>every\<close> and \<open>some\<close>
  are \<open>all\<close> and \<open>any\<close>.
\<close>

theorem all_any_short_circuit:
  "(wraps w (ys @ x # zs) \<and> (\<forall>y \<in> set ys. p y) \<and> \<not> p x \<and> length ys + 2 \<le> n \<longrightarrow>
      all n p w s = Some (Inr False, s\<lparr>heap := heap s @ [ArrayIt zs]\<rparr>)) \<and>
   (wraps w xs \<and> (\<forall>y \<in> set xs. p y) \<and> length xs + 2 \<le> n \<longrightarrow>
      all n p w s = Some (Inr True, s\<lparr>heap := heap s @ [ArrayIt []]\<rparr>)) \<and>
   (wraps w (ys @ x # zs) \<and> (\<forall>y \<in> set ys. \<not> q y) \<and> q x \<and> length ys + 2 \<le> n \<longrightarrow>
      any n q w s = Some (Inr True, s\<lparr>heap := heap s @ [ArrayIt zs]\<rparr>)) \<and>
   (wraps w xs \<and> (\<forall>y \<in> set xs. \<not> q y) \<and> length xs + 2 \<le> n \<longrightarrow>
      any n q w s = Some (Inr False, s\<lparr>heap := heap s @ [ArrayIt []]\<rparr>)) \<and>
   (wraps w [] \<and> 2 \<le> n \<longrightarrow>
      all n p w s = Some (Inr True, s\<lparr>heap := heap s @ [ArrayIt []]\<rparr>) \<and>
      any n p w s = Some (Inr False, s\<lparr>heap := heap s @ [ArrayIt []]\<rparr>)) \<and>
   every n p w s = all n p w s \<and> some n p w s = any n p w s"
proof (intro conjI impI)
  assume a: "wraps w (ys @ x # zs) \<and> (\<forall>y \<in> set ys. p y) \<and> \<not> p x \<and> length ys + 2 \<le> n"
  have "all_loop n p (length (heap s)) (heap s @ [ArrayIt (ys @ x # zs)])
          = Some (Inr False, (heap s @ [ArrayIt (ys @ x # zs)])[length (heap s) := ArrayIt zs])"
    by (rule all_loop_array_false) (use a in auto)
  with a show "all n p w s = Some (Inr False, s\<lparr>heap := heap s @ [ArrayIt zs]\<rparr>)"
    by (simp add: all_wraps [of w "ys @ x # zs"] on_heap_def)
next
  assume a: "wraps w xs \<and> (\<forall>y \<in> set xs. p y) \<and> length xs + 2 \<le> n"
  have "all_loop n p (length (heap s)) (heap s @ [ArrayIt xs])
          = Some (Inr True, (heap s @ [ArrayIt xs])[length (heap s) := ArrayIt []])"
    by (rule all_loop_array_true) (use a in auto)
  with a show "all n p w s = Some (Inr True, s\<lparr>heap := heap s @ [ArrayIt []]\<rparr>)"
    by (simp add: all_wraps [of w xs] on_heap_def)
next
  assume a: "wraps w (ys @ x # zs) \<and> (\<forall>y \<in> set ys. \<not> q y) \<and> q x \<and> length ys + 2 \<le> n"
  have "any_loop n q (length (heap s)) (heap s @ [ArrayIt (ys @ x # zs)])
          = Some (Inr True, (heap s @ [ArrayIt (ys @ x # zs)])[length (heap s) := ArrayIt zs])"
    by (rule any_loop_array_true) (use a in auto)
  with a show "any n q w s = Some (Inr True, s\<lparr>heap := heap s @ [ArrayIt zs]\<rparr>)"
    by (simp add: any_wraps [of w "ys @ x # zs"] on_heap_def)
next
  assume a: "wraps w xs \<and> (\<forall>y \<in> set xs. \<not> q y) \<and> length xs + 2 \<le> n"
  have "any_loop n q (length (heap s)) (heap s @ [ArrayIt xs])
          = Some (Inr False, (heap s @ [ArrayIt xs])[length (heap s) := ArrayIt []])"
    by (rule any_loop_array_false) (use a in auto)
  with a show "any n q w s = Some (Inr False, s\<lparr>heap := heap s @ [ArrayIt []]\<rparr>)"
    by (simp add: any_wraps [of w xs] on_heap_def)
next
  assume a: "wraps w [] \<and> 2 \<le> n"
  have "all_loop n p (length (heap s)) (heap s @ [ArrayIt []])
          = Some (Inr True, (heap s @ [ArrayIt []])[length (heap s) := ArrayIt []])"
    by (rule all_loop_array_true) (use a in auto)
  with a show "all n p w s = Some (Inr True, s\<lparr>heap := heap s @ [ArrayIt []]\<rparr>)"
    by (simp add: all_wraps [of w "[]"] on_heap_def)
  have "any_loop n p (length (heap s)) (heap s @ [ArrayIt []])
          = Some (Inr False, (heap s @ [ArrayIt []])[length (heap s) := ArrayIt []])"
    by (rule any_loop_array_false) (use a in auto)
  with a show "any n p w s = Some (Inr False, s\<lparr>heap := heap s @ [ArrayIt []]\<rparr>)"
    by (simp add: any_wraps [of w "[]"] on_heap_def)
qed (simp_all add: every_def some_def)

theorem all_any_short_circuit_witness:
  "all 3 (\<lambda>v. v \<noteq> JNum 2) (FluentIterable (JArr [JNum 1, JNum 2, JNum 3])) empty_state
     = Some (Inr False, empty_state\<lparr>heap := [ArrayIt [JNum 3]]\<rparr>) \<and>
   all 3 (\<lambda>v. v \<noteq> JNum 2) (FluentAsyncIterable (JAsyncIter [JNum 1])) empty_state
     = Some (Inr True, empty_state\<lparr>heap := [ArrayIt []]\<rparr>) \<and>
   any 3 (\<lambda>v. v = JNum 2) (FluentIterable (JArr [JNum 1, JNum 2, JNum 3])) empty_state
     = Some (Inr True, empty_state\<lparr>heap := [ArrayIt [JNum 3]]\<rparr>) \<and>
   any 3 (\<lambda>v. v = JNum 2) (FluentAsyncIterable (JAsyncIter [JNum 1])) empty_state
     = Some (Inr False, empty_state\<lparr>heap := [ArrayIt []]\<rparr>) \<and>
   all 3 (\<lambda>v. False) (FluentIterable (JArr [])) empty_state
     = Some (Inr True, empty_state\<lparr>heap := [ArrayIt []]\<rparr>) \<and>
   any 3 (\<lambda>v. True) (FluentAsyncIterable (JAsyncIter [])) empty_state
     = Some (Inr False, empty_state\<lparr>heap := [ArrayIt []]\<rparr>)"
  using all_any_short_circuit [of "FluentIterable (JArr [JNum 1, JNum 2, JNum 3])" "[JNum 1]" "JNum 2" "[JNum 3]"
            "\<lambda>v. v \<noteq> JNum 2" 3 empty_state "[]" "\<lambda>v. v = JNum 2"]
        all_any_short_circuit [of "FluentAsyncIterable (JAsyncIter [JNum 1])" "[]" "JNum 1" "[]"
            "\<lambda>v. v \<noteq> JNum 2" 3 empty_state "[JNum 1]" "\<lambda>v. v = JNum 2"]
        all_any_short_circuit [of "FluentIterable (JArr [])" "[]" "JNum 1" "[]"
            "\<lambda>v. False" 3 empty_state "[]" "\<lambda>v. False"]
        all_any_short_circuit [of "FluentAsyncIterable (JAsyncIter [])" "[]" "JNum 1" "[]"
            "\<lambda>v. True" 3 empty_state "[]" "\<lambda>v. True"]
  by (simp add: wraps_def empty_state_def)

section \<open>Zipping\<close>

lemma next_ZipRun:
  "lookup h r = ZipRun m ai bi \<Longrightarrow> next_it (Suc n) ai h = Some (Inr na, h1) \<Longrightarrow>
   next_it (Suc n) bi h1 = Some (Inr nb, h2) \<Longrightarrow>
   next_it (Suc (Suc n)) r h =
     (if isdone na \<or> isdone nb
      then Some (Inr (IterResult True (JArr [valof na, valof nb])), h2[r := Done])
      else Some (Inr (IterResult False (JArr [valof na, valof nb])), h2[r := ZipRun m ai bi]))"
  by (simp add: next_it.simps(2)[of "Suc n" r h])

lemma next_ZipG:
  "lookup h r = ZipG m a other \<Longrightarrow> method_iterator m a h = (Inr ai, h1) \<Longrightarrow>
   method_iterator m other h1 = (Inr bi, h2) \<Longrightarrow>
   next_it (Suc n) r h = next_it n r (h2[r := ZipRun m ai bi])"
  by (simp add: next_it.simps(2)[of n r h])

lemma lookup_ZipRun_lt: "lookup h d = ZipRun m ai bi \<Longrightarrow> d < length h"
  by (rule lookup_lt) simp

lemma zip_yields:
  "lookup h r = ZipRun m ai bi \<Longrightarrow> ai \<noteq> bi \<Longrightarrow> r \<noteq> ai \<Longrightarrow> r \<noteq> bi \<Longrightarrow>
   lookup h ai = ArrayIt xs \<Longrightarrow> lookup h bi = ArrayIt ys \<Longrightarrow>
   \<exists>h'. yields h r (map pair (zip xs ys)) h' \<and>
        lookup h' ai = ArrayIt (drop (Suc (min (length xs) (length ys))) xs) \<and>
        lookup h' bi = ArrayIt (drop (Suc (min (length xs) (length ys))) ys)"
proof (induction xs arbitrary: ys h)
  case Nil
  from Nil.prems have lt: "r < length h" "ai < length h" "bi < length h"
    by (auto dest: lookup_ZipRun_lt lookup_ArrayIt_lt)
  have a: "next_it (Suc 0) ai h = Some (Inr finished, h)"
    by (rule next_ArrayIt_Nil [OF Nil.prems(5)])
  show ?case
  proof (cases ys)
    case Nil
    have b: "next_it (Suc 0) bi h = Some (Inr finished, h)"
      by (rule next_ArrayIt_Nil [OF Nil.prems(6) [unfolded Nil]])
    from next_ZipRun [OF Nil.prems(1) a b]
    have "next_it (Suc (Suc 0)) r h = Some (Inr (IterResult True (JArr [Undefined, Undefined])), h[r := Done])"
      by (simp add: finished_def)
    from yields_done [OF this] have "yields h r [] (h[r := Done])" by simp
    with Nil.prems Nil show ?thesis by (auto simp: lookup_update)
  next
    case (Cons y ys')
    have b: "next_it (Suc 0) bi h = Some (Inr (IterResult False y), h[bi := ArrayIt ys'])"
      by (rule next_ArrayIt_Cons [OF Nil.prems(6) [unfolded Cons]])
    from next_ZipRun [OF Nil.prems(1) a b]
    have "next_it (Suc (Suc 0)) r h = Some (Inr (IterResult True (JArr [Undefined, y])), h[bi := ArrayIt ys', r := Done])"
      by (simp add: finished_def)
    from yields_done [OF this] have "yields h r [] (h[bi := ArrayIt ys', r := Done])" by simp
    with Nil.prems Cons lt show ?thesis by (auto simp: lookup_update)
  qed
next
  case (Cons x xs')
  from Cons.prems have lt: "r < length h" "ai < length h" "bi < length h"
    by (auto dest: lookup_ZipRun_lt lookup_ArrayIt_lt)
  let ?h1 = "h[ai := ArrayIt xs']"
  have a: "next_it (Suc 0) ai h = Some (Inr (IterResult False x), ?h1)"
    by (rule next_ArrayIt_Cons [OF Cons.prems(5)])
  have bi1: "lookup ?h1 bi = ArrayIt ys" using Cons.prems by (simp add: lookup_update)
  show ?case
  proof (cases ys)
    case Nil
    have b: "next_it (Suc 0) bi ?h1 = Some (Inr finished, ?h1)"
      by (rule next_ArrayIt_Nil [OF bi1 [unfolded Nil]])
    from next_ZipRun [OF Cons.prems(1) a b]
    have "next_it (Suc (Suc 0)) r h = Some (Inr (IterResult True (JArr [x, Undefined])), ?h1[r := Done])"
      by (simp add: finished_def)
    from yields_done [OF this] have "yields h r [] (?h1[r := Done])" by simp
    with Cons.prems Nil lt show ?thesis by (auto simp: lookup_update)
  next
    case (Cons y ys')
    let ?h3 = "h[ai := ArrayIt xs', bi := ArrayIt ys', r := ZipRun m ai bi]"
    have b: "next_it (Suc 0) bi ?h1 = Some (Inr (IterResult False y), ?h1[bi := ArrayIt ys'])"
      by (rule next_ArrayIt_Cons [OF bi1 [unfolded Cons]])
    from next_ZipRun [OF Cons.prems(1) a b]
    have step: "next_it (Suc (Suc 0)) r h = Some (Inr (IterResult False (JArr [x, y])), ?h3)"
      by simp
    have "\<exists>h'. yields ?h3 r (map pair (zip xs' ys')) h' \<and>
        lookup h' ai = ArrayIt (drop (Suc (min (length xs') (length ys'))) xs') \<and>
        lookup h' bi = ArrayIt (drop (Suc (min (length xs') (length ys'))) ys')"
      by (rule Cons.IH) (use Cons.prems lt in \<open>simp_all add: lookup_update\<close>)
    then obtain h' where h': "yields ?h3 r (map pair (zip xs' ys')) h'"
        "lookup h' ai = ArrayIt (drop (Suc (min (length xs') (length ys'))) xs')"
        "lookup h' bi = ArrayIt (drop (Suc (min (length xs') (length ys'))) ys')" by blast
    from yields_step [OF step _ h'(1)] have "yields h r (map pair (zip (x # xs') (y # ys'))) h'"
      by (simp add: pair_def)
    with h'(2,3) Cons show ?thesis by auto
  qed
qed

lemma zip_start:
  assumes r: "lookup h r = ZipG m a other"
    and a: "\<And>h. method_iterator m a h = (Inr (length h), h @ [ArrayIt xs])"
    and b: "\<And>h. method_iterator m other h = (Inr (length h), h @ [ArrayIt ys])"
  shows "\<exists>h'. yields h r (map pair (zip xs ys)) h' \<and>
        lookup h' (length h) = ArrayIt (drop (Suc (min (length xs) (length ys))) xs) \<and>
        lookup h' (Suc (length h)) = ArrayIt (drop (Suc (min (length xs) (length ys))) ys)"
proof -
  let ?h2 = "(h @ [ArrayIt xs]) @ [ArrayIt ys]"
  let ?h3 = "?h2[r := ZipRun m (length h) (Suc (length h))]"
  from r have lt: "r < length h" by (auto intro: lookup_lt)
  have "\<exists>h'. yields ?h3 r (map pair (zip xs ys)) h' \<and>
        lookup h' (length h) = ArrayIt (drop (Suc (min (length xs) (length ys))) xs) \<and>
        lookup h' (Suc (length h)) = ArrayIt (drop (Suc (min (length xs) (length ys))) ys)"
    by (rule zip_yields [where m = m]) (use lt in \<open>simp_all add: lookup_def nth_append\<close>)
  then obtain h' where h': "yields ?h3 r (map pair (zip xs ys)) h'"
    "lookup h' (length h) = ArrayIt (drop (Suc (min (length xs) (length ys))) xs)"
    "lookup h' (Suc (length h)) = ArrayIt (drop (Suc (min (length xs) (length ys))) ys)" by blast
  have "next_it (Suc n) r h = Some y" if "next_it n r ?h3 = Some y" for n y
    using next_ZipG [OF r a b [of "h @ [ArrayIt xs]"], of n] that by simp
  from yields_silent [OF this h'(1)] h'(2,3) show ?thesis by blast
qed

lemma wraps_mode_cases:
  assumes "wraps w xs" and "wraps w2 ys" and "mode_of w2 = mode_of w"
  obtains a b where "w = FluentIterable a" "w2 = FluentIterable b" "mode_of w = Sync"
  | a b where "w = FluentAsyncIterable a" "w2 = FluentAsyncIterable b" "mode_of w = Async"
  using assms by (auto simp: wraps_def mode_of_def)

text \<open>
  C5. Let \<open>w\<close> wrap \<open>xs\<close> and let \<open>other\<close> be a sequence of the same capability with the
  elements \<open>ys\<close>. Then \<open>w.zip(other).toArray()\<close> returns, for every bound that is large
  enough, a list as long as the shorter of the two whose \<open>i\<close>-th element is the pair
  \<open>[xs[i], ys[i]]\<close>. Once it has returned, each of the two cursors has been asked for
  exactly one element more than there are pairs: the rest of the longer source is
  never requested.
\<close>

theorem zip_pairs_up_to_shorter:
  "wraps w xs \<and> wraps w2 ys \<and> mode_of w2 = mode_of w \<longrightarrow>
     (\<exists>w' s1 zs. zip_fi (input w2) w s = (Inr w', s1) \<and>
        (\<exists>N s2. (\<forall>n\<ge>N. toArray n w' s1 = Some (Inr zs, s2)) \<and>
           lookup (heap s2) (Suc (length (heap s))) = ArrayIt (drop (Suc (length zs)) xs) \<and>
           lookup (heap s2) (Suc (Suc (length (heap s)))) = ArrayIt (drop (Suc (length zs)) ys)) \<and>
        zs = map pair (zip xs ys) \<and>
        length zs = min (length xs) (length ys) \<and>
        (\<forall>i<length zs. zs ! i = JArr [xs ! i, ys ! i]))"
proof
  assume asm: "wraps w xs \<and> wraps w2 ys \<and> mode_of w2 = mode_of w"
  then have w: "wraps w xs" and w2: "wraps w2 ys" and mm: "mode_of w2 = mode_of w" by simp_all
  let ?m = "mode_of w"
  let ?g = "length (heap s)"
  let ?body = "ZipG ?m (input w) (input w2)"
  let ?s1 = "s\<lparr>funs := funs s @ [GeneratorFn ?m ?body], heap := heap s @ [?body],
               calls := calls s @ [length (funs s)]\<rparr>"
  let ?zs = "map pair (zip xs ys)"
  let ?k = "min (length xs) (length ys)"
  have "\<exists>h'. yields (heap ?s1) ?g ?zs h' \<and>
        lookup h' (length (heap ?s1)) = ArrayIt (drop (Suc ?k) xs) \<and>
        lookup h' (Suc (length (heap ?s1))) = ArrayIt (drop (Suc ?k) ys)"
    by (rule zip_start [where m = ?m and a = "input w" and other = "input w2"])
       (simp_all add: wraps_method_iterator [OF w] wraps_method_iterator [OF w2, unfolded mm])
  then obtain h' where h': "yields (heap ?s1) ?g ?zs h'"
    "lookup h' (Suc ?g) = ArrayIt (drop (Suc ?k) xs)"
    "lookup h' (Suc (Suc ?g)) = ArrayIt (drop (Suc ?k) ys)" by auto
  from yields_toArray [OF h'(1)] obtain N where N:
    "\<forall>n\<ge>N. toArray n (FluentIterable (JGen ?g)) ?s1 = Some (Inr ?zs, ?s1\<lparr>heap := h'\<rparr>) \<and>
            toArray n (FluentAsyncIterable (JAsyncGen ?g)) ?s1 = Some (Inr ?zs, ?s1\<lparr>heap := h'\<rparr>)" ..
  have len: "length ?zs = ?k" by simp
  have nth: "\<forall>i<length ?zs. ?zs ! i = JArr [xs ! i, ys ! i]" by (simp add: pair_def)
  from w w2 mm show "\<exists>w' s1 zs. zip_fi (input w2) w s = (Inr w', s1) \<and>
        (\<exists>N s2. (\<forall>n\<ge>N. toArray n w' s1 = Some (Inr zs, s2)) \<and>
           lookup (heap s2) (Suc (length (heap s))) = ArrayIt (drop (Suc (length zs)) xs) \<and>
           lookup (heap s2) (Suc (Suc (length (heap s)))) = ArrayIt (drop (Suc (length zs)) ys)) \<and>
        zs = map pair (zip xs ys) \<and>
        length zs = min (length xs) (length ys) \<and>
        (\<forall>i<length zs. zs ! i = JArr [xs ! i, ys ! i])"
  proof (cases rule: wraps_mode_cases)
    case (1 a b)
    have "zip_fi (input w2) w s = (Inr (FluentIterable (JGen ?g)), ?s1)"
      unfolding zip_fi_def 1(1) using 1(3) [unfolded 1(1)]
      by (simp add: new_stage_sync del: new_stage.simps)
    moreover from N h'(2,3) have "\<exists>N s2. (\<forall>n\<ge>N. toArray n (FluentIterable (JGen ?g)) ?s1 = Some (Inr ?zs, s2)) \<and>
           lookup (heap s2) (Suc ?g) = ArrayIt (drop (Suc (length ?zs)) xs) \<and>
           lookup (heap s2) (Suc (Suc ?g)) = ArrayIt (drop (Suc (length ?zs)) ys)"
      by (intro exI [of _ N] exI [of _ "?s1\<lparr>heap := h'\<rparr>"]) (simp del: toArray.simps)
    ultimately show ?thesis using len nth by blast
  next
    case (2 a b)
    have "zip_fi (input w2) w s = (Inr (FluentAsyncIterable (JAsyncGen ?g)), ?s1)"
      unfolding zip_fi_def 2(1) using 2(3) [unfolded 2(1)]
      by (simp add: new_stage_async del: new_stage.simps)
    moreover from N h'(2,3) have "\<exists>N s2. (\<forall>n\<ge>N. toArray n (FluentAsyncIterable (JAsyncGen ?g)) ?s1 = Some (Inr ?zs, s2)) \<and>
           lookup (heap s2) (Suc ?g) = ArrayIt (drop (Suc (length ?zs)) xs) \<and>
           lookup (heap s2) (Suc (Suc ?g)) = ArrayIt (drop (Suc (length ?zs)) ys)"
      by (intro exI [of _ N] exI [of _ "?s1\<lparr>heap := h'\<rparr>"]) (simp del: toArray.simps)
    ultimately show ?thesis using len nth by blast
  qed
qed

theorem zip_pairs_up_to_shorter_witness:
  "(\<exists>w' s1. zip_fi (JArr [JNum 5, JNum 6]) (FluentIterable (JArr [JNum 1, JNum 2, JNum 3, JNum 4])) empty_state = (Inr w', s1) \<and>
      (\<exists>N s2. (\<forall>n\<ge>N. toArray n w' s1 = Some (Inr [JArr [JNum 1, JNum 5], JArr [JNum 2, JNum 6]], s2)) \<and>
         lookup (heap s2) 1 = ArrayIt [JNum 4] \<and> lookup (heap s2) 2 = ArrayIt [])) \<and>
   (\<exists>w' s1. zip_fi (JAsyncIter [JNum 5, JNum 6, JNum 7]) (FluentAsyncIterable (JAsyncIter [JNum 1])) empty_state = (Inr w', s1) \<and>
      (\<exists>N s2. (\<forall>n\<ge>N. toArray n w' s1 = Some (Inr [JArr [JNum 1, JNum 5]], s2)) \<and>
         lookup (heap s2) 1 = ArrayIt [] \<and> lookup (heap s2) 2 = ArrayIt [JNum 7]))"
  using zip_pairs_up_to_shorter [of "FluentIterable (JArr [JNum 1, JNum 2, JNum 3, JNum 4])" "[JNum 1, JNum 2, JNum 3, JNum 4]"
           "FluentIterable (JArr [JNum 5, JNum 6])" "[JNum 5, JNum 6]" empty_state]
        zip_pairs_up_to_shorter [of "FluentAsyncIterable (JAsyncIter [JNum 1])" "[JNum 1]"
           "FluentAsyncIterable (JAsyncIter [JNum 5, JNum 6, JNum 7])" "[JNum 5, JNum 6, JNum 7]" empty_state]
  by (simp add: wraps_def mode_of_def pair_def empty_state_def numeral_2_eq_2) blast

lemma zip_example_run:
  "map_option fst (case zip_fi (JArr [JNum 5, JNum 6]) (FluentIterable (JArr [JNum 1, JNum 2, JNum 3, JNum 4])) empty_state of
      (Inr w, s1) \<Rightarrow> toArray 5 w s1 | (Inl e, s1) \<Rightarrow> None)
   = Some (Inr [JArr [JNum 1, JNum 5], JArr [JNum 2, JNum 6]])"
  by code_simp

section \<open>Stages are single-pass\<close>

lemma lookup_set_Done [simp]: "lookup (h[r := Done]) r = Done"
  by (simp add: lookup_def)

lemma next_done_state:
  "next_it n r h = Some (Inr x, h') \<Longrightarrow> isdone x \<Longrightarrow> lookup h' r = Done \<or> lookup h' r = ArrayIt []"
proof (induction n arbitrary: r h x h')
  case 0
  then show ?case by simp
next
  case (Suc n)
  note A = Suc.prems(1) and B = Suc.prems(2)
  show ?case
  proof (cases "lookup h r")
    case (ArrayIt xs)
    with A B show ?thesis by (auto simp: next_it.simps(2)[of _ r h] finished_def split: list.splits)
  next
    case (YieldG xs)
    with A B show ?thesis by (auto simp: next_it.simps(2)[of _ r h] finished_def split: list.splits)
  next
    case (MapG m fn s)
    with A B show ?thesis
      by (auto simp: next_it.simps(2)[of _ r h] finished_def
               split: prod.splits sum.splits option.splits if_splits)
  next
    case (FilterG m p s)
    with A B show ?thesis
      by (auto simp: next_it.simps(2)[of _ r h] finished_def
               split: prod.splits sum.splits option.splits if_splits dest: Suc.IH)
  next
    case (Concat1 m s other)
    with A B show ?thesis
      by (auto simp: next_it.simps(2)[of _ r h] finished_def
               split: prod.splits sum.splits option.splits if_splits dest: Suc.IH)
  next
    case (Concat2 m s)
    with A B show ?thesis
      by (auto simp: next_it.simps(2)[of _ r h] finished_def
               split: prod.splits sum.splits option.splits if_splits)
  next
    case (FlatG m a)
    with A B show ?thesis
      by (auto simp: next_it.simps(2)[of _ r h] finished_def
               split: prod.splits sum.splits option.splits if_splits dest: Suc.IH)
  next
    case (FlatRun m st)
    with A B show ?thesis
      by (auto simp: next_it.simps(2)[of _ r h] finished_def
               split: list.splits prod.splits sum.splits option.splits if_splits dest: Suc.IH)
  next
    case (EnumG m s i)
    with A B show ?thesis
      by (auto simp: next_it.simps(2)[of _ r h] finished_def
               split: prod.splits sum.splits option.splits if_splits)
  next
    case (ZipG m a other)
    with A B show ?thesis
      by (auto simp: next_it.simps(2)[of _ r h] finished_def
               split: prod.splits sum.splits option.splits if_splits dest: Suc.IH)
  next
    case (ZipRun m ai bi)
    with A B show ?thesis
      by (auto simp: next_it.simps(2)[of _ r h] finished_def
               split: prod.splits sum.splits option.splits if_splits)
  next
    case Done
    with A B show ?thesis by (auto simp: next_it.simps(2)[of _ r h] finished_def)
  qed
qed

lemma drain_done_state:
  "drain n r h = Some (Inr vs, h') \<Longrightarrow> lookup h' r = Done \<or> lookup h' r = ArrayIt []"
proof (induction n arbitrary: h vs)
  case 0
  then show ?case by simp
next
  case (Suc n)
  then show ?case
    by (auto split: option.splits prod.splits sum.splits if_splits dest: next_done_state)
qed

lemma drain_again:
  "lookup h r = Done \<or> lookup h r = ArrayIt [] \<Longrightarrow> drain (Suc (Suc k)) r h = Some (Inr [], h)"
  by (auto simp: next_Done next_ArrayIt_Nil finished_def)

lemma on_heap_Some:
  "on_heap res s = Some (x, s2) \<Longrightarrow> \<exists>h'. res = Some (x, h') \<and> s2 = s\<lparr>heap := h'\<rparr>"
  by (auto simp: on_heap_def split: option.splits)

lemma stage_single_pass:
  assumes "new_stage w body s = (Inr w', s1)" and "toArray n w' s1 = Some (Inr vs, s2)"
  shows "toArray (Suc (Suc k)) w' s2 = Some (Inr [], s2)"
proof (cases w)
  case (FluentIterable a)
  from assms(1) have w': "w' = FluentIterable (JGen (length (heap s)))"
    unfolding FluentIterable new_stage_sync by simp
  from assms(2) obtain h' where h': "drain n (length (heap s)) (heap s1) = Some (Inr vs, h')"
    "s2 = s1\<lparr>heap := h'\<rparr>"
    unfolding w' toArray_JGen by (blast dest: on_heap_Some)
  from drain_again [OF drain_done_state [OF h'(1)], of k] show ?thesis
    unfolding w' toArray_JGen h'(2) by (simp add: on_heap_def)
next
  case (FluentAsyncIterable a)
  from assms(1) have w': "w' = FluentAsyncIterable (JAsyncGen (length (heap s)))"
    unfolding FluentAsyncIterable new_stage_async by simp
  from assms(2) obtain h' where h': "drain n (length (heap s)) (heap s1) = Some (Inr vs, h')"
    "s2 = s1\<lparr>heap := h'\<rparr>"
    unfolding w' toArray_JAsyncGen by (blast dest: on_heap_Some)
  from drain_again [OF drain_done_state [OF h'(1)], of k] show ?thesis
    unfolding w' toArray_JAsyncGen h'(2) by (simp add: on_heap_def)
qed

lemma new_stage_succeeds:
  "\<exists>w' s1. new_stage w body s = (Inr w', s1) \<and>
     input w' = (case mode_of w of Sync \<Rightarrow> JGen | Async \<Rightarrow> JAsyncGen) (length (heap s)) \<and>
     mode_of w' = mode_of w \<and> calls s1 = calls s @ [length (funs s)]"
  by (cases w) (simp_all add: new_stage_sync new_stage_async mode_of_def del: new_stage.simps)

text \<open>
  C9. Each of \<open>map\<close>, \<open>filter\<close>, \<open>concat\<close>, \<open>flat\<close>, \<open>enumerate\<close> and \<open>zip\<close>, on a
  wrapper of either class and whatever its source, returns a wrapper of the same class
  that holds a new generator object, made by one call of a function; once a
  \<open>toArray()\<close> of that wrapper has returned, every later \<open>toArray()\<close> of it returns the
  empty list and changes nothing: the wrapper holds the generator object that the
  constructor obtained by calling the stage's generator function once, and that object
  is completed.
\<close>

theorem stages_are_single_pass:
  "stage \<in> {map_fi fn, filter_fi predicate, concat_fi other, flat, enumerate_fi, zip_fi other} \<longrightarrow>
     (\<exists>w' s1. stage w s = (Inr w', s1) \<and>
        input w' = (case mode_of w of Sync \<Rightarrow> JGen | Async \<Rightarrow> JAsyncGen) (length (heap s)) \<and>
        mode_of w' = mode_of w \<and> calls s1 = calls s @ [length (funs s)]) \<and>
     (\<forall>w' s1 n vs s2 k. stage w s = (Inr w', s1) \<and> toArray n w' s1 = Some (Inr vs, s2)
        \<longrightarrow> toArray (Suc (Suc k)) w' s2 = Some (Inr [], s2))"
proof
  assume "stage \<in> {map_fi fn, filter_fi predicate, concat_fi other, flat, enumerate_fi, zip_fi other}"
  then obtain body where body: "stage w s = new_stage w body s"
    unfolding map_fi_def filter_fi_def concat_fi_def flat_def enumerate_fi_def zip_fi_def
    by auto
  show "(\<exists>w' s1. stage w s = (Inr w', s1) \<and>
        input w' = (case mode_of w of Sync \<Rightarrow> JGen | Async \<Rightarrow> JAsyncGen) (length (heap s)) \<and>
        mode_of w' = mode_of w \<and> calls s1 = calls s @ [length (funs s)]) \<and>
     (\<forall>w' s1 n vs s2 k. stage w s = (Inr w', s1) \<and> toArray n w' s1 = Some (Inr vs, s2)
        \<longrightarrow> toArray (Suc (Suc k)) w' s2 = Some (Inr [], s2))"
    unfolding body using new_stage_succeeds [of w body s] stage_single_pass [of w body s]
    by blast
qed

theorem stages_are_single_pass_witness:
  "map_fi (\<lambda>v. JArr [v]) (FluentIterable (JArr [JNum 1, JNum 2])) empty_state
     = (Inr (FluentIterable (JGen 0)),
        \<lparr>heap = [MapG Sync (\<lambda>v. JArr [v]) (Pending (JArr [JNum 1, JNum 2]))],
         funs = [GeneratorFn Sync (MapG Sync (\<lambda>v. JArr [v]) (Pending (JArr [JNum 1, JNum 2])))],
         calls = [0]\<rparr>) \<and>
   toArray 5 (FluentIterable (JGen 0))
       \<lparr>heap = [MapG Sync (\<lambda>v. JArr [v]) (Pending (JArr [JNum 1, JNum 2]))],
        funs = [GeneratorFn Sync (MapG Sync (\<lambda>v. JArr [v]) (Pending (JArr [JNum 1, JNum 2])))],
        calls = [0]\<rparr>
     = Some (Inr [JArr [JNum 1], JArr [JNum 2]],
             \<lparr>heap = [Done, ArrayIt []],
              funs = [GeneratorFn Sync (MapG Sync (\<lambda>v. JArr [v]) (Pending (JArr [JNum 1, JNum 2])))],
              calls = [0]\<rparr>) \<and>
   toArray 2 (FluentIterable (JGen 0))
       \<lparr>heap = [Done, ArrayIt []],
        funs = [GeneratorFn Sync (MapG Sync (\<lambda>v. JArr [v]) (Pending (JArr [JNum 1, JNum 2])))],
        calls = [0]\<rparr>
     = Some (Inr [],
             \<lparr>heap = [Done, ArrayIt []],
              funs = [GeneratorFn Sync (MapG Sync (\<lambda>v. JArr [v]) (Pending (JArr [JNum 1, JNum 2])))],
              calls = [0]\<rparr>)"
proof -
  let ?f = "\<lambda>v. JArr [v]"
  let ?w = "FluentIterable (JArr [JNum 1, JNum 2])"
  let ?g = "MapG Sync ?f (Pending (JArr [JNum 1, JNum 2]))"
  let ?s1 = "\<lparr>heap = [?g], funs = [GeneratorFn Sync ?g], calls = [0]\<rparr>"
  let ?s2 = "\<lparr>heap = [Done, ArrayIt []], funs = [GeneratorFn Sync ?g], calls = [0]\<rparr>"
  have e1: "map_fi ?f ?w empty_state = (Inr (FluentIterable (JGen 0)), ?s1)"
    by (simp add: map_fi_def new_stage_sync empty_state_def del: new_stage.simps)
  have e2: "toArray 5 (FluentIterable (JGen 0)) ?s1 = Some (Inr [JArr [JNum 1], JArr [JNum 2]], ?s2)"
    by (simp add: Array_from_def on_heap_def eval_nat_numeral next_it.simps(2) lookup_def finished_def)
  from stages_are_single_pass [where stage = "map_fi ?f" and fn = ?f and w = ?w and s = empty_state] e1 e2
  have "toArray (Suc (Suc 0)) (FluentIterable (JGen 0)) ?s2 = Some (Inr [], ?s2)"
    by blast
  with e1 e2 show ?thesis by (simp only: numeral_2_eq_2) 
qed

section \<open>Strings under flattening\<close>

text \<open>A request on a flattening generator whose top cursor is about to produce a
  non-empty string returns with no bound: the string is descended into, its first
  character is a non-empty string again, and so on.\<close>

lemma flat_string_no_return:
  "lookup h r = FlatRun m (c # cs) \<Longrightarrow> c \<noteq> r \<Longrightarrow> lookup h c = ArrayIt (JStr s # rest) \<Longrightarrow>
   s \<noteq> [] \<Longrightarrow> next_it n r h = None"
proof (induction n arbitrary: h c cs s rest)
  case 0
  show ?case by simp
next
  case (Suc n)
  show ?case
  proof (cases n)
    case 0
    with Suc.prems show ?thesis by (simp add: next_it.simps(2))
  next
    case (Suc k)
    let ?h1 = "h[c := ArrayIt rest]"
    let ?chars = "map (\<lambda>c. JStr [c]) s"
    let ?h3 = "(?h1 @ [ArrayIt ?chars])[r := FlatRun m (length h # c # cs)]"
    from Suc.prems have lt: "r < length h" "c < length h"
      by (auto intro: lookup_lt)
    from Suc.prems(4) obtain a s' where s: "s = a # s'" by (cases s) auto
    have d: "descend m (JStr s) ?h1 = Inr (Some (length h, ?h1 @ [ArrayIt ?chars]))"
      using Suc.prems(4) by (cases m) (simp_all add: isIterable_def isAsyncIterable_def)
    have "next_it (Suc (Suc k)) r h = next_it (Suc k) r ?h3"
      by (rule next_FlatRun_push [OF Suc.prems(1) Suc.prems(3) d])
    moreover have "next_it n r ?h3 = None"
    proof (rule Suc.IH)
      show "lookup ?h3 r = FlatRun m (length h # c # cs)" using lt by (simp add: lookup_update)
      show "length h \<noteq> r" using lt by simp
      show "lookup ?h3 (length h) = ArrayIt (JStr [a] # map (\<lambda>c. JStr [c]) s')"
        using lt by (simp add: lookup_update lookup_append s)
      show "[a] \<noteq> []" by simp
    qed
    ultimately show ?thesis using Suc by simp
  qed
qed

lemma drain_no_return: "(\<And>k. next_it k r h = None) \<Longrightarrow> drain n r h = None"
  by (cases n) simp_all

lemma next_it_deterministic:
  assumes "next_it a r h = Some y" and "next_it b r h = Some z"
  shows "y = z"
proof -
  from next_it_mono [OF assms(1), of "max a b"] next_it_mono [OF assms(2), of "max a b"]
  show ?thesis by simp
qed

lemma never_done_drain: "never_done h r \<Longrightarrow> drain n r h = None"
proof (induction arbitrary: n rule: never_done.induct)
  case (never_done_stuck r h)
  then show ?case by (cases n) simp_all
next
  case (never_done_later k r h x h1)
  show ?case
  proof (cases n)
    case 0
    then show ?thesis by simp
  next
    case (Suc j)
    show ?thesis
    proof (cases "next_it j r h")
      case None
      then show ?thesis unfolding Suc by simp
    next
      case (Some y)
      from next_it_deterministic [OF this never_done_later(1)] have "y = (Inr x, h1)" .
      with Some never_done_later(2) never_done_later.IH [of j] show ?thesis
        unfolding Suc by simp
    qed
  qed
qed

lemma never_done_silent:
  assumes "\<And>n. next_it (Suc n) r h = next_it n r h1" and "never_done h1 r"
  shows "never_done h r"
  using assms(2)
proof (cases rule: never_done.cases)
  case never_done_stuck
  have "next_it n r h = None" for n
    using assms(1) never_done_stuck by (cases n) simp_all
  then show ?thesis by (rule never_done.never_done_stuck)
next
  case (never_done_later n x h2)
  from never_done_later(1) have "next_it (Suc n) r h = Some (Inr x, h2)"
    using assms(1) by simp
  from this never_done_later(2,3) show ?thesis by (rule never_done.never_done_later)
qed

lemma descend_refused:
  "isIterable x = Inr False \<Longrightarrow> descend Sync x h = Inr None"
  "isIterable x = Inr False \<Longrightarrow> isAsyncIterable x = Inr False \<Longrightarrow> descend Async x h = Inr None"
  by simp_all

lemma flat_leaves_then_string:
  "lookup h r = FlatRun m [c] \<Longrightarrow> c \<noteq> r \<Longrightarrow> lookup h c = ArrayIt (pre @ JStr s # rest) \<Longrightarrow>
   s \<noteq> [] \<Longrightarrow> (\<And>x h. x \<in> set pre \<Longrightarrow> descend m x h = Inr None) \<Longrightarrow> never_done h r"
proof (induction pre arbitrary: h)
  case Nil
  have "next_it n r h = None" for n
    by (rule flat_string_no_return [OF Nil(1) Nil(2) _ Nil(4)]) (use Nil(3) in simp)
  then show ?case by (rule never_done_stuck)
next
  case (Cons x pre)
  let ?h3 = "h[c := ArrayIt (pre @ JStr s # rest), r := FlatRun m [c]]"
  from Cons.prems have lt: "r < length h" "c < length h" by (auto intro: lookup_lt)
  have d: "descend m x (h[c := ArrayIt (pre @ JStr s # rest)]) = Inr None"
    by (rule Cons.prems(5)) simp
  have step: "next_it (Suc (Suc 0)) r h = Some (Inr (IterResult False x), ?h3)"
    by (rule next_FlatRun_leaf [OF Cons.prems(1) _ d]) (use Cons.prems(3) in simp)
  have "never_done ?h3 r"
  proof (rule Cons.IH)
    show "lookup ?h3 r = FlatRun m [c]" using lt by (simp add: lookup_update)
    show "c \<noteq> r" by (rule Cons.prems(2))
    show "lookup ?h3 c = ArrayIt (pre @ JStr s # rest)"
      using lt Cons.prems(2) by (simp add: lookup_update)
    show "s \<noteq> []" by (rule Cons.prems(4))
    show "descend m y h' = Inr None" if "y \<in> set pre" for y h'
      by (rule Cons.prems(5)) (use that in simp)
  qed
  from never_done_later [OF step _ this] show ?case by simp
qed

lemma flat_start_never_done:
  assumes r: "lookup h r = FlatG m a"
    and a: "method_iterator m a h = (Inr (length h), h @ [ArrayIt (pre @ JStr s # rest)])"
    and s: "s \<noteq> []"
    and pre: "\<And>x h. x \<in> set pre \<Longrightarrow> descend m x h = Inr None"
  shows "drain n r h = None"
proof -
  let ?h1 = "(h @ [ArrayIt (pre @ JStr s # rest)])[r := FlatRun m [length h]]"
  from r have lt: "r < length h" by (auto intro: lookup_lt)
  have "never_done ?h1 r"
    by (rule flat_leaves_then_string [where c = "length h" and pre = pre and s = s and rest = rest])
       (use lt s pre in \<open>simp_all add: lookup_update lookup_append\<close>)
  moreover have "next_it (Suc k) r h = next_it k r ?h1" for k
    by (rule next_FlatG [OF r a])
  ultimately have "never_done h r" by (rule never_done_silent [rotated])
  then show ?thesis by (rule never_done_drain)
qed

text \<open>
  C1. The property asks that \<open>flat()\<close> emit a string element as a leaf and that the
  classifier not take a string for a sequence. The code does neither for a non-empty
  string: \<open>isIterable\<close> answers true for it, and when the elements before the first such
  string are leaves, \<open>flat()\<close> followed by \<open>toArray()\<close> returns with no bound at all, in
  both classes: the loop descends into the string, then into its first character, which
  is a non-empty string again, and its stack grows for ever.
\<close>

theorem flat_never_returns_on_nonempty_string:
  "(s \<noteq> [] \<and> (\<forall>x \<in> set pre. isIterable x = Inr False) \<longrightarrow>
      isIterable (JStr s) = Inr True \<and>
      (\<exists>w s1. flat (FluentIterable (JArr (pre @ JStr s # rest))) st = (Inr w, s1) \<and>
         (\<forall>n. toArray n w s1 = None))) \<and>
   (s \<noteq> [] \<and> (\<forall>x \<in> set pre. isIterable x = Inr False \<and> isAsyncIterable x = Inr False) \<longrightarrow>
      (\<exists>w s1. flat (FluentAsyncIterable (JAsyncIter (pre @ JStr s # rest))) st = (Inr w, s1) \<and>
         (\<forall>n. toArray n w s1 = None)))"
proof (intro conjI impI)
  assume "s \<noteq> [] \<and> (\<forall>x \<in> set pre. isIterable x = Inr False)"
  then show "isIterable (JStr s) = Inr True" by (simp add: isIterable_def)
next
  assume a: "s \<noteq> [] \<and> (\<forall>x \<in> set pre. isIterable x = Inr False)"
  let ?a = "JArr (pre @ JStr s # rest)"
  let ?r = "length (heap st)"
  let ?s1 = "st\<lparr>funs := funs st @ [GeneratorFn Sync (FlatG Sync ?a)],
               heap := heap st @ [FlatG Sync ?a], calls := calls st @ [length (funs st)]\<rparr>"
  have "drain n ?r (heap st @ [FlatG Sync ?a]) = None" for n
    by (rule flat_start_never_done [where m = Sync and a = ?a and pre = pre and s = s and rest = rest])
       (use a in \<open>simp_all add: descend_refused\<close>)
  then have "\<forall>n. toArray n (FluentIterable (JGen ?r)) ?s1 = None"
    by (simp add: toArray_JGen on_heap_def del: toArray.simps)
  moreover have "flat (FluentIterable ?a) st = (Inr (FluentIterable (JGen ?r)), ?s1)"
    unfolding flat_def by (simp add: new_stage_sync del: new_stage.simps)
  ultimately show "\<exists>w s1. flat (FluentIterable ?a) st = (Inr w, s1) \<and> (\<forall>n. toArray n w s1 = None)"
    by blast
next
  assume a: "s \<noteq> [] \<and> (\<forall>x \<in> set pre. isIterable x = Inr False \<and> isAsyncIterable x = Inr False)"
  let ?a = "JAsyncIter (pre @ JStr s # rest)"
  let ?r = "length (heap st)"
  let ?s1 = "st\<lparr>funs := funs st @ [GeneratorFn Async (FlatG Async ?a)],
               heap := heap st @ [FlatG Async ?a], calls := calls st @ [length (funs st)]\<rparr>"
  have "drain n ?r (heap st @ [FlatG Async ?a]) = None" for n
    by (rule flat_start_never_done [where m = Async and a = ?a and pre = pre and s = s and rest = rest])
       (use a in \<open>simp_all add: descend_refused\<close>)
  then have "\<forall>n. toArray n (FluentAsyncIterable (JAsyncGen ?r)) ?s1 = None"
    by (simp add: toArray_JAsyncGen on_heap_def del: toArray.simps)
  moreover have "flat (FluentAsyncIterable ?a) st = (Inr (FluentAsyncIterable (JAsyncGen ?r)), ?s1)"
    unfolding flat_def by (simp add: new_stage_async del: new_stage.simps)
  ultimately show "\<exists>w s1. flat (FluentAsyncIterable ?a) st = (Inr w, s1) \<and> (\<forall>n. toArray n w s1 = None)"
    by blast
qed

theorem flat_never_returns_on_nonempty_string_witness:
  "isIterable (JStr ''ab'') = Inr True \<and>
   (\<exists>w s1. flat (FluentIterable (JArr [JNum 1, JStr ''ab''])) empty_state = (Inr w, s1) \<and>
      (\<forall>n. toArray n w s1 = None)) \<and>
   (\<exists>w s1. flat (FluentAsyncIterable (JAsyncIter [JNum 1, JStr ''ab''])) empty_state = (Inr w, s1) \<and>
      (\<forall>n. toArray n w s1 = None))"
  using flat_never_returns_on_nonempty_string [of "''ab''" "[JNum 1]" "[]" empty_state]
  by (simp add: isIterable_def isAsyncIterable_def)

text \<open>The first rounds of that run, computed: the branch of the loop that meets the
  string \<open>ab\<close> pushes a cursor over its characters, in both bodies, and with the bound 40
  the run on \<open>[1, 'ab']\<close> has not returned.\<close>

lemma flat_string_descent:
  "descend Sync (JStr ''ab'') [] = Inr (Some (0, [ArrayIt [JStr ''a'', JStr ''b'']])) \<and>
   descend Async (JStr ''ab'') [] = Inr (Some (0, [ArrayIt [JStr ''a'', JStr ''b'']])) \<and>
   map_option fst (case flat (FluentIterable (JArr [JNum 1, JStr ''ab''])) empty_state of
      (Inr w, s1) \<Rightarrow> toArray 40 w s1 | (Inl e, s1) \<Rightarrow> None) = None"
proof -
  have "map_option fst (case flat (FluentIterable (JArr [JNum 1, JStr ''ab''])) empty_state of
      (Inr w, s1) \<Rightarrow> toArray 40 w s1 | (Inl e, s1) \<Rightarrow> None) = None"
    by code_simp
  then show ?thesis by (simp add: isIterable_def isAsyncIterable_def)
qed

text \<open>The empty string is falsy, so the classifier refuses it and both bodies emit it
  as a leaf, in its place among the other leaves.\<close>

lemma flat_empty_string_is_leaf:
  "isIterable (JStr []) = Inr False \<and> isAsyncIterable (JStr s) = Inr False \<and>
   descend m (JStr []) h = Inr None \<and>
   ((\<forall>x \<in> set (pre @ post). finite_tree Sync x) \<longrightarrow>
      (\<exists>w s1. flat (FluentIterable (JArr (pre @ JStr [] # post))) st = (Inr w, s1) \<and>
         (\<exists>N s2. \<forall>n\<ge>N. toArray n w s1 =
            Some (Inr (concat (map (leaves Sync) pre) @ JStr [] # concat (map (leaves Sync) post)), s2)))) \<and>
   ((\<forall>x \<in> set (pre' @ post'). finite_tree Async x) \<longrightarrow>
      (\<exists>w s1. flat (FluentAsyncIterable (JAsyncIter (pre' @ JStr [] # post'))) st = (Inr w, s1) \<and>
         (\<exists>N s2. \<forall>n\<ge>N. toArray n w s1 =
            Some (Inr (concat (map (leaves Async) pre') @ JStr [] # concat (map (leaves Async) post')), s2))))"
proof (intro conjI impI)
  show "descend m (JStr []) h = Inr None"
    by (cases m) (simp_all add: isIterable_def isAsyncIterable_def)
next
  assume "\<forall>x \<in> set (pre @ post). finite_tree Sync x"
  then have "\<forall>x \<in> set (pre @ JStr [] # post). finite_tree Sync x" by auto
  from flat_toArray_sync [OF this, of st]
  show "\<exists>w s1. flat (FluentIterable (JArr (pre @ JStr [] # post))) st = (Inr w, s1) \<and>
         (\<exists>N s2. \<forall>n\<ge>N. toArray n w s1 =
            Some (Inr (concat (map (leaves Sync) pre) @ JStr [] # concat (map (leaves Sync) post)), s2))"
    unfolding leaves_list_append by simp
next
  assume "\<forall>x \<in> set (pre' @ post'). finite_tree Async x"
  then have "\<forall>x \<in> set (pre' @ JStr [] # post'). finite_tree Async x" by auto
  from flat_toArray_async [OF this, of st]
  show "\<exists>w s1. flat (FluentAsyncIterable (JAsyncIter (pre' @ JStr [] # post'))) st = (Inr w, s1) \<and>
         (\<exists>N s2. \<forall>n\<ge>N. toArray n w s1 =
            Some (Inr (concat (map (leaves Async) pre') @ JStr [] # concat (map (leaves Async) post')), s2))"
    unfolding leaves_list_append by simp
qed (simp_all add: isIterable_def isAsyncIterable_def)

section \<open>Suppliers\<close>








end
